theory Spec2Isabelle
  imports Complex_Main "HOL-Library.Sublist" "HOL-Library.Log_Nat"
begin

section \<open>Strings\<close>

text \<open>
  A Python \<open>str\<close> is modelled as a HOL \<open>string\<close>; a character is a code point below 256.
  \<open>whitespace\<close> lists the code points below 256 for which \<open>str.isspace\<close> holds, which are
  the separators of \<open>str.split()\<close> and the characters removed by \<open>str.strip()\<close>.
\<close>

definition whitespace :: "char list" where
  "whitespace = [CHR 0x09, CHR 0x0A, CHR 0x0B, CHR 0x0C, CHR 0x0D,
                 CHR 0x1C, CHR 0x1D, CHR 0x1E, CHR 0x1F, CHR 0x20, CHR 0x85, CHR 0xA0]"

definition isspace :: "char \<Rightarrow> bool" where
  "isspace c = (c \<in> set whitespace)"

text \<open>
  \<open>text.split()\<close>: the maximal runs of non-whitespace characters, in order. \<open>split_from cur s\<close>
  scans \<open>s\<close> with the word read so far in \<open>cur\<close>.
\<close>

fun split_from :: "string \<Rightarrow> string \<Rightarrow> string list" where
  "split_from cur [] = (if cur = [] then [] else [cur])"
| "split_from cur (c # cs) =
     (if isspace c then (if cur = [] then split_from [] cs else cur # split_from [] cs)
      else split_from (cur @ [c]) cs)"

definition split :: "string \<Rightarrow> string list" where
  "split s = split_from [] s"

text \<open>\<open>s.strip()\<close>: leading and trailing whitespace removed.\<close>

definition strip :: "string \<Rightarrow> string" where
  "strip s = rev (dropWhile isspace (rev (dropWhile isspace s)))"

text \<open>\<open>sep.join(ws)\<close>.\<close>

fun join :: "string \<Rightarrow> string list \<Rightarrow> string" where
  "join sep [] = []"
| "join sep [w] = w"
| "join sep (w # v # ws) = w @ sep @ join sep (v # ws)"

section \<open>The chunker: \<open>PDFProcessor._chunk_text\<close>\<close>

text \<open>
  The loop over \<open>words\<close> carries \<open>chunks\<close>, \<open>current_chunk\<close> and \<open>current_size\<close>; the
  first equation is the code after the loop. Python integers are unbounded, so sizes are \<open>int\<close>.
\<close>

fun chunk_loop :: "int \<Rightarrow> string list \<Rightarrow> string list \<Rightarrow> string list \<Rightarrow> int \<Rightarrow> string list" where
  "chunk_loop chunk_size [] chunks current_chunk current_size =
     (if current_chunk \<noteq> [] then chunks @ [join '' '' current_chunk] else chunks)"
| "chunk_loop chunk_size (word # words) chunks current_chunk current_size =
     (let current_size = current_size + (int (length word) + 1) in
      if current_size > chunk_size then
        chunk_loop chunk_size words
          (if current_chunk \<noteq> [] then chunks @ [join '' '' current_chunk] else chunks)
          [word] (int (length word))
      else chunk_loop chunk_size words chunks (current_chunk @ [word]) current_size)"

definition chunk_text :: "string \<Rightarrow> int \<Rightarrow> string list" where
  "chunk_text text chunk_size = chunk_loop chunk_size (split text) [] [] 0"

section \<open>Exceptions and JSON values\<close>

text \<open>
  Python exceptions as values. \<open>Exception m\<close> stands for any instance of \<open>Exception\<close> (the
  string names its class); \<open>KeyboardInterrupt\<close> derives from \<open>BaseException\<close> only, so an
  \<open>except Exception\<close> clause does not catch it. A computation that may raise returns
  \<open>exn + 'a\<close>, with \<open>Inl\<close> the raised exception.
\<close>

datatype exn = KeyboardInterrupt | Exception string

definition except_Exception :: "exn \<Rightarrow> exn option" where
  \<comment> \<open>\<open>except Exception as e: logging.error(...)\<close>: what is still being raised afterwards.\<close>
  "except_Exception e = (case e of KeyboardInterrupt \<Rightarrow> Some KeyboardInterrupt | Exception m \<Rightarrow> None)"

definition outcome :: "exn + 'a \<Rightarrow> exn option" where
  "outcome r = (case r of Inl e \<Rightarrow> Some e | Inr v \<Rightarrow> None)"

definition try_bind :: "exn + 'a \<Rightarrow> ('a \<Rightarrow> exn + 'b) \<Rightarrow> exn + 'b" where
  "try_bind m f = (case m of Inl e \<Rightarrow> Inl e | Inr v \<Rightarrow> f v)"

text \<open>
  The values the backend client returns are parsed JSON: \<open>None\<close>, booleans, numbers, strings,
  lists and dicts with string keys (an association list whose keys are distinct). \<open>JNum q\<close> is
  a number by its exact value \<open>q\<close>, as the JSON text writes it or as Python computed it.
\<close>

datatype json = JNull | JBool bool | JNum rat | JStr string | JArr "json list"
  | JObj "(string \<times> json) list"

fun truthy :: "json \<Rightarrow> bool" where
  "truthy JNull = False"
| "truthy (JBool b) = b"
| "truthy (JNum q) = (q \<noteq> 0)"
| "truthy (JStr s) = (s \<noteq> [])"
| "truthy (JArr xs) = (xs \<noteq> [])"
| "truthy (JObj kvs) = (kvs \<noteq> [])"

text \<open>\<open>key in v\<close> for a string \<open>key\<close>.\<close>

fun py_in :: "string \<Rightarrow> json \<Rightarrow> exn + bool" where
  "py_in key (JObj kvs) = Inr (key \<in> set (map fst kvs))"
| "py_in key (JArr xs) = Inr (JStr key \<in> set xs)"
| "py_in key (JStr s) = Inr (sublist key s)"
| "py_in key v = Inl (Exception ''TypeError'')"

text \<open>\<open>v[key]\<close> for a string \<open>key\<close>.\<close>

fun getitem :: "json \<Rightarrow> string \<Rightarrow> exn + json" where
  "getitem (JObj kvs) key =
     (case map_of kvs key of None \<Rightarrow> Inl (Exception ''KeyError'') | Some v \<Rightarrow> Inr v)"
| "getitem v key = Inl (Exception ''TypeError'')"

text \<open>\<open>v[0]\<close>.\<close>

fun getitem0 :: "json \<Rightarrow> exn + json" where
  "getitem0 (JArr xs) = (case xs of [] \<Rightarrow> Inl (Exception ''IndexError'') | x # _ \<Rightarrow> Inr x)"
| "getitem0 (JStr s) = (case s of [] \<Rightarrow> Inl (Exception ''IndexError'') | c # _ \<Rightarrow> Inr (JStr [c]))"
| "getitem0 (JObj kvs) = Inl (Exception ''KeyError'')"
| "getitem0 v = Inl (Exception ''TypeError'')"

fun py_len :: "json \<Rightarrow> exn + nat" where
  "py_len (JArr xs) = Inr (length xs)"
| "py_len (JObj kvs) = Inr (length kvs)"
| "py_len (JStr s) = Inr (length s)"
| "py_len v = Inl (Exception ''TypeError'')"

text \<open>\<open>for r in v\<close>: the items the loop visits.\<close>

fun py_iter :: "json \<Rightarrow> exn + json list" where
  "py_iter (JArr xs) = Inr xs"
| "py_iter (JObj kvs) = Inr (map (\<lambda>kv. JStr (fst kv)) kvs)"
| "py_iter (JStr s) = Inr (map (\<lambda>c. JStr [c]) s)"
| "py_iter v = Inl (Exception ''TypeError'')"

text \<open>
  Python's floats are IEEE binary64 numbers, here taken by their exact rational values.
  \<open>half_even\<close> rounds to the nearest integer, a tie going to the even one. \<open>binade x\<close> is,
  for positive \<open>x\<close>, the exponent \<open>e\<close> with \<open>2 powi e \<le> x < 2 powi (e + 1)\<close>. \<open>to_double x\<close> is the double nearest
  to \<open>x\<close> (53 significant bits, exponents from -1074 up, ties to even): what \<open>float\<close> makes
  of a decimal literal, and the result of a float operation whose exact result is \<open>x\<close>.
  Overflow to infinity (magnitudes from \<open>2 ^ 1024\<close> on), infinities and NaN are outside the model.
\<close>

definition half_even :: "rat \<Rightarrow> int" where
  "half_even y =
     (let f = floor y; d = y - of_int f in
      if d < 1 / 2 then f else if 1 / 2 < d then f + 1 else if even f then f else f + 1)"

definition binade :: "rat \<Rightarrow> int" where
  "binade x =
     (let (p, q) = quotient_of x; k = bitlen p - bitlen q in
      if 2 powi k \<le> x then k else k - 1)"

definition to_double :: "rat \<Rightarrow> rat" where
  "to_double x =
     (if x = 0 then 0
      else let a = \<bar>x\<bar>; e = max (binade a - 52) (- 1074) in
           sgn x * (of_int (half_even (a / 2 powi e)) * 2 powi e))"

text \<open>
  The number a value denotes in a comparison or a product with a float: a JSON number is read
  as the nearest double (an integer literal is read as an \<open>int\<close>, which is the same number
  below \<open>2 ^ 53\<close>), and \<open>bool\<close> is an \<open>int\<close>.
\<close>

fun num_of :: "json \<Rightarrow> exn + rat" where
  "num_of (JNum q) = Inr (to_double q)"
| "num_of (JBool b) = Inr (if b then 1 else 0)"
| "num_of v = Inl (Exception ''TypeError'')"

text \<open>
  \<open>round(x, 2)\<close> for a float \<open>x\<close>: the exact value of \<open>x\<close> is rounded to the nearest multiple of
  1/100, a tie going to the even one, and the result is the double nearest to that decimal.
\<close>

definition py_round2 :: "rat \<Rightarrow> rat" where
  "py_round2 x = to_double (of_int (half_even (x * 100)) / 100)"

section \<open>The ingestion pipeline: \<open>PDFProcessor\<close>\<close>

text \<open>The \<open>properties\<close> dict of one stored segment, with its four fixed keys.\<close>

record segment =
  content :: string
  page_number :: int
  file_name :: string
  chunk_number :: int

text \<open>
  A PDF file as the processor sees it: its name, and what opening and reading it gives, either
  an exception or the pages, each page being what \<open>extract_text\<close> gives for it (an
  exception or the text).
\<close>

record pdf =
  pdf_name :: string
  pdf_pages :: "exn + (exn + string) list"

text \<open>
  The calls that leave the process, each logged in the world's \<open>trace\<close> with its outcome
  (\<open>None\<close>: it returned; \<open>Some e\<close>: it raised \<open>e\<close>). The world also holds what the
  collaborators will answer: the outcomes of the successive batch inserts (an exhausted list
  means success), the answer of the backend to the per-file \<open>Get\<close> query, the outcome of
  writing a file, and the clock's time stamp.
\<close>

datatype call = Glob | Open string | Extract string nat | Insert "segment list"
  | Query string | Write string json

record world =
  inserts :: "exn option list"
  get_documents :: "string \<Rightarrow> exn + json"
  write_file :: "string \<Rightarrow> exn option"
  now :: string
  trace :: "(call \<times> exn option) list"

definition log_call :: "call \<Rightarrow> exn option \<Rightarrow> world \<Rightarrow> world" where
  "log_call c out w = w\<lparr>trace := trace w @ [(c, out)]\<rparr>"

text \<open>
  \<open>_process_batch\<close>: the objects of the batch are sent to the backend as one operation; the
  handler logs and re-raises, so the outcome of the backend call is the outcome of the method.
\<close>

definition process_batch :: "segment list \<Rightarrow> world \<Rightarrow> exn option \<times> world" where
  "process_batch batch w =
     (case inserts w of
        [] \<Rightarrow> (None, log_call (Insert batch) None w)
      | out # rest \<Rightarrow> (out, log_call (Insert batch) out (w\<lparr>inserts := rest\<rparr>)))"

text \<open>
  \<open>_create_backup\<close>. The result is \<open>Inl e\<close> when \<open>e\<close> is raised, and otherwise the value
  returned: \<open>Some True\<close>, \<open>Some False\<close>, or \<open>None\<close> for Python's \<open>None\<close> when the
  method ends without a \<open>return\<close>.
\<close>

definition has_documents :: "json \<Rightarrow> exn + bool" where
  \<comment> \<open>\<open>result and 'data' in result and 'Get' in result['data'] and 'Document' in result['data']['Get']\<close>\<close>
  "has_documents result =
     (if \<not> truthy result then Inr False
      else try_bind (py_in ''data'' result) (\<lambda>b1.
        if \<not> b1 then Inr False
        else try_bind (getitem result ''data'') (\<lambda>d.
          try_bind (py_in ''Get'' d) (\<lambda>b2.
            if \<not> b2 then Inr False
            else try_bind (getitem d ''Get'') (\<lambda>g. py_in ''Document'' g)))))"

definition documents_of :: "json \<Rightarrow> exn + json" where
  \<comment> \<open>\<open>result['data']['Get']['Document']\<close>\<close>
  "documents_of result =
     try_bind (getitem result ''data'') (\<lambda>d.
       try_bind (getitem d ''Get'') (\<lambda>g. getitem g ''Document''))"

definition backup_data :: "string \<Rightarrow> string \<Rightarrow> json \<Rightarrow> exn + json" where
  "backup_data filename timestamp result =
     try_bind (documents_of result) (\<lambda>docs.
       try_bind (py_len docs) (\<lambda>n.
         try_bind (documents_of result) (\<lambda>chunks.
           Inr (JObj [(''metadata'', JObj [(''filename'', JStr filename),
                                           (''backup_time'', JStr timestamp),
                                           (''total_chunks'', JNum (of_nat n))]),
                      (''chunks'', chunks)]))))"

definition backup_handler :: "exn \<Rightarrow> exn + bool option" where
  \<comment> \<open>\<open>except Exception as e: logging.error(...); return False\<close>\<close>
  "backup_handler e = (case e of KeyboardInterrupt \<Rightarrow> Inl KeyboardInterrupt
                       | Exception m \<Rightarrow> Inr (Some False))"

definition create_backup :: "string \<Rightarrow> world \<Rightarrow> (exn + bool option) \<times> world" where
  "create_backup filename w =
     (let answer = get_documents w filename;
          w1 = log_call (Query filename) (outcome answer) w in
      case answer of
        Inl e \<Rightarrow> (backup_handler e, w1)
      | Inr result \<Rightarrow>
          (case has_documents result of
             Inl e \<Rightarrow> (backup_handler e, w1)
           | Inr False \<Rightarrow> (Inr None, w1)
           | Inr True \<Rightarrow>
               (let timestamp = now w1;
                    backup_file = ''weaviate_backups/backup_'' @ filename @ ''_'' @ timestamp @ ''.json''
                in case backup_data filename timestamp result of
                     Inl e \<Rightarrow> (backup_handler e, w1)
                   | Inr data \<Rightarrow>
                       (let written = write_file w1 backup_file;
                            w2 = log_call (Write backup_file data) written w1
                        in case written of
                             Some e \<Rightarrow> (backup_handler e, w2)
                           | None \<Rightarrow> (Inr (Some True), w2)))))"

text \<open>
  \<open>process_pdf\<close>. \<open>add_chunks\<close> is the loop over \<open>enumerate(chunks)\<close>, \<open>process_page\<close> the
  body of the loop over the pages with its handler, \<open>pages_loop\<close> that loop. Each returns
  the exception still being raised (if any), the list \<open>batch\<close> as it then is, and the world.
  \<open>properties\<close> is the dict built for one chunk. The default \<open>chunk_size\<close> of
  \<open>_chunk_text\<close> is 5000.
\<close>

definition properties :: "string \<Rightarrow> nat \<Rightarrow> nat \<Rightarrow> string \<Rightarrow> segment" where
  "properties name page_num chunk_num chunk =
     \<lparr>content = chunk, page_number = int page_num + 1,
      file_name = name, chunk_number = int chunk_num + 1\<rparr>"

fun add_chunks ::
  "int \<Rightarrow> string \<Rightarrow> nat \<Rightarrow> (nat \<times> string) list \<Rightarrow> segment list \<Rightarrow> world
     \<Rightarrow> exn option \<times> segment list \<times> world" where
  "add_chunks batch_size name page_num [] batch w = (None, batch, w)"
| "add_chunks batch_size name page_num ((chunk_num, chunk) # rest) batch w =
     (if strip chunk = [] then add_chunks batch_size name page_num rest batch w
      else
        (let batch = batch @ [properties name page_num chunk_num chunk]
         in if int (length batch) \<ge> batch_size then
              (case process_batch batch w of
                 (Some e, w') \<Rightarrow> (Some e, batch, w')
               | (None, w') \<Rightarrow> add_chunks batch_size name page_num rest [] w')
            else add_chunks batch_size name page_num rest batch w))"

definition process_page ::
  "int \<Rightarrow> string \<Rightarrow> nat \<Rightarrow> exn + string \<Rightarrow> segment list \<Rightarrow> world
     \<Rightarrow> exn option \<times> segment list \<times> world" where
  "process_page batch_size name page_num page batch w =
     (let w1 = log_call (Extract name page_num) (outcome page) w in
      case page of
        Inl e \<Rightarrow> (except_Exception e, batch, w1)
      | Inr text \<Rightarrow>
          if text = [] \<or> strip text = [] then (None, batch, w1)
          else
            (case add_chunks batch_size name page_num (enumerate 0 (chunk_text text 5000)) batch w1 of
               (None, batch', w2) \<Rightarrow> (None, batch', w2)
             | (Some e, batch', w2) \<Rightarrow> (except_Exception e, batch', w2)))"

fun pages_loop ::
  "int \<Rightarrow> string \<Rightarrow> nat \<Rightarrow> (exn + string) list \<Rightarrow> segment list \<Rightarrow> world
     \<Rightarrow> exn option \<times> segment list \<times> world" where
  "pages_loop batch_size name page_num [] batch w = (None, batch, w)"
| "pages_loop batch_size name page_num (page # pages) batch w =
     (case process_page batch_size name page_num page batch w of
        (Some e, batch', w') \<Rightarrow> (Some e, batch', w')
      | (None, batch', w') \<Rightarrow> pages_loop batch_size name (Suc page_num) pages batch' w')"

definition process_pdf :: "int \<Rightarrow> pdf \<Rightarrow> world \<Rightarrow> exn option \<times> world" where
  "process_pdf batch_size f w =
     (let w1 = log_call (Open (pdf_name f)) (outcome (pdf_pages f)) w in
      case pdf_pages f of
        Inl e \<Rightarrow> (except_Exception e, w1)
      | Inr pages \<Rightarrow>
          (case pages_loop batch_size (pdf_name f) 0 pages [] w1 of
             (Some e, batch, w2) \<Rightarrow> (except_Exception e, w2)
           | (None, batch, w2) \<Rightarrow>
               (case (if batch \<noteq> [] then process_batch batch w2 else (None, w2)) of
                  (Some e, w3) \<Rightarrow> (except_Exception e, w3)
                | (None, w3) \<Rightarrow>
                    (case create_backup (pdf_name f) w3 of
                       (Inl e, w4) \<Rightarrow> (except_Exception e, w4)
                     | (Inr b, w4) \<Rightarrow> (None, w4)))))"

text \<open>
  \<open>process_directory\<close>, given what \<open>directory.glob\<close> gives. In \<open>files_loop\<close> the interrupt
  is logged and re-raised and any other exception logged before the next file; both outer
  handlers log and re-raise.
\<close>

fun files_loop :: "int \<Rightarrow> pdf list \<Rightarrow> world \<Rightarrow> exn option \<times> world" where
  "files_loop batch_size [] w = (None, w)"
| "files_loop batch_size (pdf_file # rest) w =
     (case process_pdf batch_size pdf_file w of
        (Some KeyboardInterrupt, w') \<Rightarrow> (Some KeyboardInterrupt, w')
      | (Some (Exception m), w') \<Rightarrow> files_loop batch_size rest w'
      | (None, w') \<Rightarrow> files_loop batch_size rest w')"

definition process_directory :: "int \<Rightarrow> exn + pdf list \<Rightarrow> world \<Rightarrow> exn option \<times> world" where
  "process_directory batch_size directory w =
     (let w1 = log_call Glob (outcome directory) w in
      case directory of
        Inl e \<Rightarrow> (Some e, w1)
      | Inr pdf_files \<Rightarrow>
          if pdf_files = [] then (None, w1) else files_loop batch_size pdf_files w1)"

text \<open>What the trace says: the batches the backend accepted, and the calls made since a world.\<close>

fun accepted :: "call \<times> exn option \<Rightarrow> segment list list" where
  "accepted (Insert batch, None) = [batch]"
| "accepted ev = []"

definition committed :: "world \<Rightarrow> segment list list" where
  "committed w = concat (map accepted (trace w))"

definition new_calls :: "world \<Rightarrow> world \<Rightarrow> (call \<times> exn option) list" where
  "new_calls w w' = drop (length (trace w)) (trace w')"

section \<open>The search service: \<open>SearchEngine\<close>\<close>

text \<open>
  The backend's answers are parameters: \<open>near_text query limit\<close> is what the similarity
  query built by \<open>search\<close> gives, \<open>aggregate\<close> what the count query gives. \<open>min_score\<close>
  is the value of the float passed. \<open>format_result\<close> is the body of the loop over the
  results: \<open>None\<close> when the result is filtered out; \<open>certainty * 100\<close> is a float product.
\<close>

definition certainty_of :: "json \<Rightarrow> exn + json" where
  \<comment> \<open>\<open>r['_additional']['certainty']\<close>\<close>
  "certainty_of r = try_bind (getitem r ''_additional'') (\<lambda>a. getitem a ''certainty'')"

definition format_result :: "rat \<Rightarrow> json \<Rightarrow> exn + json option" where
  "format_result min_score r =
     try_bind (certainty_of r) (\<lambda>certainty.
     try_bind (num_of certainty) (\<lambda>c.
       if c \<ge> min_score then
         try_bind (getitem r ''content'') (\<lambda>v1.
         try_bind (getitem r ''page_number'') (\<lambda>v2.
         try_bind (getitem r ''file_name'') (\<lambda>v3.
         try_bind (getitem r ''chunk_number'') (\<lambda>v4.
           Inr (Some (JObj [(''content'', v1), (''page_number'', v2), (''file_name'', v3),
                            (''chunk_number'', v4),
                            (''relevance_score'', JNum (py_round2 (to_double (c * 100))))]))))))
       else Inr None))"

fun format_loop :: "rat \<Rightarrow> json list \<Rightarrow> json list \<Rightarrow> exn + json list" where
  "format_loop min_score [] formatted_results = Inr formatted_results"
| "format_loop min_score (r # rs) formatted_results =
     (case format_result min_score r of
        Inl e \<Rightarrow> Inl e
      | Inr None \<Rightarrow> format_loop min_score rs formatted_results
      | Inr (Some h) \<Rightarrow> format_loop min_score rs (formatted_results @ [h]))"

definition format_response :: "rat \<Rightarrow> json \<Rightarrow> exn + json list" where
  "format_response min_score response =
     try_bind (documents_of response) (\<lambda>results.
       try_bind (py_iter results) (\<lambda>rs. format_loop min_score rs []))"

definition search ::
  "(string \<Rightarrow> int \<Rightarrow> exn + json) \<Rightarrow> string \<Rightarrow> int \<Rightarrow> rat \<Rightarrow> exn + json list" where
  "search near_text query limit min_score =
     (case try_bind (near_text query limit) (format_response min_score) of
        Inl KeyboardInterrupt \<Rightarrow> Inl KeyboardInterrupt
      | Inl (Exception m) \<Rightarrow> Inr []
      | Inr formatted_results \<Rightarrow> Inr formatted_results)"

definition count_of :: "json \<Rightarrow> exn + json" where
  \<comment> \<open>\<open>response['data']['Aggregate']['Document'][0]['meta']['count']\<close>\<close>
  "count_of response =
     try_bind (getitem response ''data'') (\<lambda>d.
     try_bind (getitem d ''Aggregate'') (\<lambda>a.
     try_bind (getitem a ''Document'') (\<lambda>ds.
     try_bind (getitem0 ds) (\<lambda>d0.
     try_bind (getitem d0 ''meta'') (\<lambda>m. getitem m ''count'')))))"

definition get_document_count :: "exn + json \<Rightarrow> exn + json" where
  "get_document_count aggregate =
     (case try_bind aggregate count_of of
        Inl KeyboardInterrupt \<Rightarrow> Inl KeyboardInterrupt
      | Inl (Exception m) \<Rightarrow> Inr (JNum 0)
      | Inr n \<Rightarrow> Inr n)"

section \<open>Example inputs\<close>

text \<open>
  A world in which every collaborator answers: the inserts succeed, the \<open>Get\<close> query finds
  no stored document, files can be written.
\<close>

definition quiet_world :: world where
  "quiet_world = \<lparr>inserts = [],
     get_documents = (\<lambda>name. Inr (JObj [(''data'', JObj [(''Get'', JObj [(''Document'', JArr [])])])])),
     write_file = (\<lambda>path. None), now = ''20240101_120000'', trace = []\<rparr>"

section \<open>Auxiliary notions for the proofs\<close>

text \<open>A word as \<open>split\<close> produces it: non-empty and free of whitespace.\<close>

definition good :: "string \<Rightarrow> bool" where
  "good w = (w \<noteq> [] \<and> (\<forall>c\<in>set w. \<not> isspace c))"

text \<open>The bound on one segment: it is a single word or at most \<open>N\<close> characters long.\<close>

definition seg_ok :: "int \<Rightarrow> string \<Rightarrow> bool" where
  "seg_ok N seg = (split seg = [seg] \<or> int (length seg) \<le> N)"

text \<open>A computation that does not raise \<open>KeyboardInterrupt\<close>.\<close>

definition no_interrupt :: "exn + 'a \<Rightarrow> bool" where
  "no_interrupt r = (r \<noteq> Inl KeyboardInterrupt)"

text \<open>The formatted result \<open>h\<close> that \<open>search\<close> builds from a backend result \<open>r\<close> it keeps.\<close>

definition formats :: "rat \<Rightarrow> json \<Rightarrow> json \<Rightarrow> bool" where
  "formats min_score r h =
     (\<exists>certainty c. certainty_of r = Inr certainty \<and> num_of certainty = Inr c \<and> min_score \<le> c \<and>
        getitem h ''relevance_score'' = Inr (JNum (py_round2 (to_double (c * 100)))) \<and>
        getitem h ''content'' = getitem r ''content'' \<and>
        getitem h ''page_number'' = getitem r ''page_number'' \<and>
        getitem h ''file_name'' = getitem r ''file_name'' \<and>
        getitem h ''chunk_number'' = getitem r ''chunk_number'')"

text \<open>
  A list of calls holds an interrupted one; and the shape of the calls of one operation: if it
  raised \<open>KeyboardInterrupt\<close> the interrupted call is the last one and the only one, otherwise
  no call was interrupted.
\<close>

definition interrupts :: "(call \<times> exn option) list \<Rightarrow> bool" where
  "interrupts evs = (Some KeyboardInterrupt \<in> snd ` set evs)"

definition ki_last :: "bool \<Rightarrow> (call \<times> exn option) list \<Rightarrow> bool" where
  "ki_last raised evs =
     (if raised then evs \<noteq> [] \<and> snd (last evs) = Some KeyboardInterrupt \<and> \<not> interrupts (butlast evs)
      else \<not> interrupts evs)"

text \<open>
  The records that the loops of \<open>process_pdf\<close> build: for the chunks of one page, for one
  page, and for the pages of a file from position \<open>k\<close> on. \<open>flushes\<close> lists the batches of
  the insert calls of a trace. \<open>clean_run\<close> describes a stretch of the loops in which no
  insert fails: the batches \<open>bl\<close> sent are full, accepted, and together with the pending
  list they hold the former pending list followed by the records built.
\<close>

fun chunk_records :: "string \<Rightarrow> nat \<Rightarrow> (nat \<times> string) list \<Rightarrow> segment list" where
  "chunk_records name k [] = []"
| "chunk_records name k ((n, chunk) # rest) =
     (if strip chunk = [] then chunk_records name k rest
      else properties name k n chunk # chunk_records name k rest)"

definition page_records :: "string \<Rightarrow> nat \<Rightarrow> exn + string \<Rightarrow> segment list" where
  "page_records name k page =
     (case page of Inl e \<Rightarrow> []
      | Inr text \<Rightarrow> if strip text = [] then []
                   else chunk_records name k (enumerate 0 (chunk_text text 5000)))"

fun file_records :: "string \<Rightarrow> nat \<Rightarrow> (exn + string) list \<Rightarrow> segment list" where
  "file_records name k [] = []"
| "file_records name k (page # pages) = page_records name k page @ file_records name (Suc k) pages"

fun flushed :: "call \<times> exn option \<Rightarrow> segment list list" where
  "flushed (Insert batch, out) = [batch]"
| "flushed ev = []"

definition flushes :: "(call \<times> exn option) list \<Rightarrow> segment list list" where
  "flushes evs = concat (map flushed evs)"

definition clean_run :: "int \<Rightarrow> segment list \<Rightarrow> segment list \<Rightarrow> world \<Rightarrow> world
    \<Rightarrow> segment list list \<Rightarrow> segment list \<Rightarrow> bool" where
  "clean_run bs batch batch' w w' bl records =
     (set (inserts w') \<subseteq> {None} \<and> int (length batch') < bs \<and>
      (\<exists>evs. trace w' = trace w @ evs \<and> flushes evs = bl \<and> concat (map accepted evs) = bl) \<and>
      (\<forall>b\<in>set bl. int (length b) = bs) \<and> concat bl @ batch' = batch @ records)"


section \<open>Properties of the chunker\<close>



lemma isspace_space: "isspace CHR '' ''"
  by (simp add: isspace_def whitespace_def)

lemma split_from_nospace:
  "\<forall>c\<in>set w. \<not> isspace c \<Longrightarrow> split_from cur w = (if cur @ w = [] then [] else [cur @ w])"
  by (induction w arbitrary: cur) auto

lemma split_good: "good w \<Longrightarrow> split w = [w]"
  by (simp add: good_def split_def split_from_nospace)

lemma split_from_sep:
  "isspace s \<Longrightarrow> split_from cur (a @ s # b) = split_from cur a @ split b"
  by (induction a arbitrary: cur) (auto simp: split_def)

lemma split_from_words:
  "w \<in> set (split_from cur s) \<Longrightarrow> \<forall>c\<in>set cur. \<not> isspace c \<Longrightarrow> good w"
proof (induction s arbitrary: cur)
  case Nil
  then show ?case by (auto simp: good_def split: if_splits)
next
  case (Cons c cs)
  show ?case
  proof (cases "isspace c")
    case True
    with Cons.prems have "w = cur \<and> cur \<noteq> [] \<or> w \<in> set (split_from [] cs)"
      by (auto split: if_splits)
    then show ?thesis using Cons.IH[of "[]"] Cons.prems(2) by (auto simp: good_def)
  next
    case False
    with Cons.prems have "w \<in> set (split_from (cur @ [c]) cs)" by simp
    moreover have "\<forall>d\<in>set (cur @ [c]). \<not> isspace d" using False Cons.prems(2) by simp
    ultimately show ?thesis by (rule Cons.IH)
  qed
qed

lemma split_words_good: "w \<in> set (split s) \<Longrightarrow> good w"
  using split_from_words[of w "[]" s] by (simp add: split_def)

lemma split_join: "split (join '' '' segs) = concat (map split segs)"
proof (induction "'' ''" segs rule: join.induct)
  case 1
  then show ?case by (simp add: split_def)
next
  case (2 w)
  then show ?case by simp
next
  case (3 w v ws)
  have "split (w @ CHR '' '' # join '' '' (v # ws)) = split w @ split (join '' '' (v # ws))"
    unfolding split_def[of "w @ _"] split_def[of w] by (rule split_from_sep[OF isspace_space])
  with 3 show ?case by simp
qed

lemma concat_split_good: "\<forall>w\<in>set ws. good w \<Longrightarrow> concat (map split ws) = ws"
  by (induction ws) (simp_all add: split_good)

lemma split_join_good: "\<forall>w\<in>set ws. good w \<Longrightarrow> split (join '' '' ws) = ws"
  by (simp add: split_join concat_split_good)

lemma split_whitespace: "\<forall>c\<in>set s. isspace c \<Longrightarrow> split s = []"
  unfolding split_def by (induction s) auto

lemma chunk_loop_words:
  "\<forall>w\<in>set (cur @ ws). good w \<Longrightarrow>
   concat (map split (chunk_loop N ws chunks cur sz)) = concat (map split chunks) @ cur @ ws"
proof (induction ws arbitrary: chunks cur sz)
  case Nil
  then show ?case by (simp add: split_join_good)
next
  case (Cons w ws)
  have c: "split (join '' '' cur) = cur" using Cons.prems by (simp add: split_join_good)
  show ?case
  proof (cases "sz + (int (length w) + 1) > N")
    case True
    have "concat (map split (chunk_loop N (w # ws) chunks cur sz)) =
          concat (map split (chunk_loop N ws (if cur \<noteq> [] then chunks @ [join '' '' cur] else chunks) [w] (int (length w))))"
      using True by simp
    also have "\<dots> = concat (map split (if cur \<noteq> [] then chunks @ [join '' '' cur] else chunks)) @ [w] @ ws"
      using Cons.prems by (intro Cons.IH) simp
    also have "\<dots> = concat (map split chunks) @ cur @ w # ws"
      using c by simp
    finally show ?thesis .
  next
    case False
    have "concat (map split (chunk_loop N (w # ws) chunks cur sz)) =
          concat (map split (chunk_loop N ws chunks (cur @ [w]) (sz + (int (length w) + 1))))"
      using False by simp
    also have "\<dots> = concat (map split chunks) @ (cur @ [w]) @ ws"
      using Cons.prems by (intro Cons.IH) simp
    finally show ?thesis by simp
  qed
qed

text \<open>
  C1: for every text and every size bound \<open>N\<close> (positive or not), joining the segments of
  \<open>chunk_text text N\<close> with single spaces and splitting the result on whitespace gives exactly
  the words of the text, in order; a text of whitespace only (the empty text included) gives
  no segment.
\<close>

theorem chunk_text_roundtrip:
  "split (join '' '' (chunk_text text N)) = split text \<and>
   ((\<forall>c\<in>set text. isspace c) \<longrightarrow> chunk_text text N = [])"
proof
  have "\<forall>w\<in>set ([] @ split text). good w" by (simp add: split_words_good)
  from chunk_loop_words[OF this]
  show "split (join '' '' (chunk_text text N)) = split text"
    by (simp add: split_join chunk_text_def)
  show "(\<forall>c\<in>set text. isspace c) \<longrightarrow> chunk_text text N = []"
    by (simp add: chunk_text_def split_whitespace)
qed

theorem chunk_text_roundtrip_witness:
  "split (join '' '' (chunk_text '' ab cd   e fghijklm n'' 5)) = [''ab'', ''cd'', ''e'', ''fghijklm'', ''n'']
   \<and> list_all isspace ''   '' \<and> chunk_text ''   '' 5 = []"
  using chunk_text_roundtrip[of "'' ab cd   e fghijklm n''" 5] chunk_text_roundtrip[of "''   ''" 5]
  by (simp add: split_def isspace_def whitespace_def)

lemma join_snoc: "ws \<noteq> [] \<Longrightarrow> join sep (ws @ [w]) = join sep ws @ sep @ w"
  by (induction sep ws rule: join.induct) auto


lemma chunk_loop_bound:
  assumes "\<forall>w\<in>set (cur @ ws). good w" "\<forall>s\<in>set chunks. seg_ok N s"
    "0 \<le> sz" "cur \<noteq> [] \<longrightarrow> int (length (join '' '' cur)) \<le> sz"
    "2 \<le> length cur \<longrightarrow> sz \<le> N"
  shows "\<forall>s\<in>set (chunk_loop N ws chunks cur sz). seg_ok N s"
  using assms
proof (induction ws arbitrary: chunks cur sz)
  case Nil
  have "seg_ok N (join '' '' cur)" if "cur \<noteq> []"
  proof (cases cur)
    case Nil
    with that show ?thesis by simp
  next
    case (Cons a as)
    show ?thesis
    proof (cases as)
      case Nil
      with Cons Nil.prems(1) show ?thesis by (simp add: seg_ok_def split_good)
    next
      case (Cons b bs)
      with \<open>cur = a # as\<close> Nil.prems(4,5) show ?thesis by (simp add: seg_ok_def)
    qed
  qed
  with Nil.prems(2) show ?case by auto
next
  case (Cons w ws)
  have emit: "seg_ok N (join '' '' cur)" if "cur \<noteq> []"
  proof (cases cur)
    case Nil
    with that show ?thesis by simp
  next
    case (Cons a as)
    show ?thesis
    proof (cases as)
      case Nil
      with Cons Cons.prems(1) show ?thesis by (simp add: seg_ok_def split_good)
    next
      case (Cons b bs)
      with \<open>cur = a # as\<close> Cons.prems(4,5) show ?thesis by (simp add: seg_ok_def)
    qed
  qed
  show ?case
  proof (cases "sz + (int (length w) + 1) > N")
    case True
    have "\<forall>s\<in>set (chunk_loop N ws (if cur \<noteq> [] then chunks @ [join '' '' cur] else chunks) [w] (int (length w))). seg_ok N s"
      using Cons.prems(1,2) emit by (intro Cons.IH) auto
    with True show ?thesis by simp
  next
    case False
    have len: "int (length (join '' '' (cur @ [w]))) \<le> sz + (int (length w) + 1)"
    proof (cases "cur = []")
      case True
      with Cons.prems(3) show ?thesis by simp
    next
      case False
      with Cons.prems(4) show ?thesis by (simp add: join_snoc)
    qed
    have "\<forall>s\<in>set (chunk_loop N ws chunks (cur @ [w]) (sz + (int (length w) + 1))). seg_ok N s"
      using Cons.prems(1,2,3) False len by (intro Cons.IH) auto
    with False show ?thesis by simp
  qed
qed

text \<open>
  C10: for every text and every size bound \<open>N\<close>, a segment of \<open>chunk_text text N\<close> that
  holds two or more words is at most \<open>N\<close> characters long; a segment longer than \<open>N\<close> is
  one single word.
\<close>

theorem chunk_text_bound:
  "seg \<in> set (chunk_text text N) \<Longrightarrow>
     (2 \<le> length (split seg) \<longrightarrow> int (length seg) \<le> N) \<and>
     (N < int (length seg) \<longrightarrow> split seg = [seg])"
proof -
  assume a: "seg \<in> set (chunk_text text N)"
  have "\<forall>s\<in>set (chunk_loop N (split text) [] [] 0). seg_ok N s"
    by (rule chunk_loop_bound) (simp_all add: split_words_good)
  with a have "seg_ok N seg" by (simp add: chunk_text_def)
  then show ?thesis by (auto simp: seg_ok_def)
qed

theorem chunk_text_bound_witness:
  "''ab cd'' \<in> set (chunk_text ''ab cd e fghijklm n'' 6) \<and> 2 \<le> length (split ''ab cd'')
   \<and> int (length ''ab cd'') \<le> 6
   \<and> ''fghijklm'' \<in> set (chunk_text ''ab cd e fghijklm n'' 6) \<and> 6 < int (length ''fghijklm'')
   \<and> split ''fghijklm'' = [''fghijklm'']"
proof -
  have segs: "chunk_text ''ab cd e fghijklm n'' 6 = [''ab cd'', ''e'', ''fghijklm'', ''n'']"
    by (simp add: chunk_text_def split_def isspace_def whitespace_def)
  have two: "2 \<le> length (split ''ab cd'')"
    by (simp add: split_def isspace_def whitespace_def)
  have m1: "''ab cd'' \<in> set (chunk_text ''ab cd e fghijklm n'' 6)"
    and m2: "''fghijklm'' \<in> set (chunk_text ''ab cd e fghijklm n'' 6)"
    by (simp_all add: segs)
  from chunk_text_bound[OF m1] chunk_text_bound[OF m2] two m1 m2 show ?thesis by simp
qed

section \<open>Properties of the search service\<close>

lemma no_interrupt_Inr [simp]: "no_interrupt (Inr v)"
  by (simp add: no_interrupt_def)

lemma no_interrupt_Exception [simp]: "no_interrupt (Inl (Exception m))"
  by (simp add: no_interrupt_def)

lemma no_interrupt_try_bind:
  "no_interrupt m \<Longrightarrow> (\<And>v. no_interrupt (f v)) \<Longrightarrow> no_interrupt (try_bind m f)"
  by (cases m) (auto simp: try_bind_def no_interrupt_def)

lemma no_interrupt_getitem [simp]: "no_interrupt (getitem v key)"
  by (cases v) (auto split: option.splits)

lemma no_interrupt_getitem0 [simp]: "no_interrupt (getitem0 v)"
  by (cases v) (auto split: list.splits)

lemma no_interrupt_py_in [simp]: "no_interrupt (py_in key v)"
  by (cases v) auto

lemma no_interrupt_py_len [simp]: "no_interrupt (py_len v)"
  by (cases v) auto

lemma no_interrupt_py_iter [simp]: "no_interrupt (py_iter v)"
  by (cases v) auto

lemma no_interrupt_num_of [simp]: "no_interrupt (num_of v)"
  by (cases v) auto

lemma no_interrupt_documents_of [simp]: "no_interrupt (documents_of v)"
  unfolding documents_of_def by (intro no_interrupt_try_bind) simp_all

lemma no_interrupt_certainty_of [simp]: "no_interrupt (certainty_of v)"
  unfolding certainty_of_def by (intro no_interrupt_try_bind) simp_all

lemma no_interrupt_format_result [simp]: "no_interrupt (format_result ms r)"
  unfolding format_result_def
  by (intro no_interrupt_try_bind) (simp_all add: no_interrupt_try_bind)

lemma no_interrupt_format_loop [simp]: "no_interrupt (format_loop ms rs acc)"
  by (induction rs arbitrary: acc)
     (use no_interrupt_format_result in \<open>auto simp: no_interrupt_def split: sum.splits option.splits\<close>)

lemma no_interrupt_format_response [simp]: "no_interrupt (format_response ms response)"
  unfolding format_response_def by (intro no_interrupt_try_bind) simp_all

lemma no_interrupt_count_of [simp]: "no_interrupt (count_of response)"
  unfolding count_of_def by (intro no_interrupt_try_bind) simp_all

text \<open>
  C5: \<open>search\<close> never raises an \<open>Exception\<close> to its caller: when the backend call raises
  one, or when handling the response raises one, it returns the empty list; likewise
  \<open>get_document_count\<close> then returns 0.
\<close>

theorem search_never_raises_error:
  "search near_text q l ms \<noteq> Inl (Exception m)
   \<and> (near_text q l = Inl (Exception m) \<longrightarrow> search near_text q l ms = Inr [])
   \<and> (near_text q l = Inr response \<longrightarrow> format_response ms response = Inl e
        \<longrightarrow> search near_text q l ms = Inr [])
   \<and> get_document_count aggregate \<noteq> Inl (Exception m)
   \<and> (aggregate = Inl (Exception m) \<longrightarrow> get_document_count aggregate = Inr (JNum 0))
   \<and> (aggregate = Inr response \<longrightarrow> count_of response = Inl e
        \<longrightarrow> get_document_count aggregate = Inr (JNum 0))"
proof -
  have 1: "search near_text q l ms \<noteq> Inl (Exception m)"
    by (simp add: search_def split: sum.splits exn.splits)
  have 2: "search near_text q l ms = Inr []" if "near_text q l = Inl (Exception m)"
    using that by (simp add: search_def try_bind_def)
  have 3: "search near_text q l ms = Inr []"
    if "near_text q l = Inr response" "format_response ms response = Inl e"
  proof -
    from no_interrupt_format_response[of ms response] that(2) obtain m' where "e = Exception m'"
      by (cases e) (auto simp: no_interrupt_def)
    with that show ?thesis by (simp add: search_def try_bind_def)
  qed
  have 4: "get_document_count aggregate \<noteq> Inl (Exception m)"
    by (simp add: get_document_count_def split: sum.splits exn.splits)
  have 5: "get_document_count aggregate = Inr (JNum 0)" if "aggregate = Inl (Exception m)"
    using that by (simp add: get_document_count_def try_bind_def)
  have 6: "get_document_count aggregate = Inr (JNum 0)"
    if "aggregate = Inr response" "count_of response = Inl e"
  proof -
    from no_interrupt_count_of[of response] that(2) obtain m' where "e = Exception m'"
      by (cases e) (auto simp: no_interrupt_def)
    with that show ?thesis by (simp add: get_document_count_def try_bind_def)
  qed
  from 1 2 3 4 5 6 show ?thesis by blast
qed

theorem search_never_raises_error_witness:
  "search (\<lambda>q l. Inl (Exception ''ConnectionError'')) ''cats'' 5 (7 / 10) = Inr []
   \<and> search (\<lambda>q l. Inr (JObj [(''errors'', JArr [])])) ''cats'' 5 (7 / 10) = Inr []
   \<and> get_document_count (Inl (Exception ''ConnectionError'')) = Inr (JNum 0)
   \<and> get_document_count (Inr (JObj [(''data'', JObj [(''Aggregate'', JObj [(''Document'', JArr [])])])]))
       = Inr (JNum 0)"
proof -
  have r1: "format_response (7 / 10) (JObj [(''errors'', JArr [])]) = Inl (Exception ''KeyError'')"
    by (simp add: format_response_def documents_of_def try_bind_def)
  have r2: "count_of (JObj [(''data'', JObj [(''Aggregate'', JObj [(''Document'', JArr [])])])])
       = Inl (Exception ''IndexError'')"
    by (simp add: count_of_def try_bind_def)
  from search_never_raises_error[where near_text = "\<lambda>q l. Inl (Exception ''ConnectionError'')"
        and q = "''cats''" and l = 5 and ms = "7 / 10" and m = "''ConnectionError''"
        and aggregate = "Inl (Exception ''ConnectionError'')"]
    search_never_raises_error[where near_text = "\<lambda>q l. Inr (JObj [(''errors'', JArr [])])"
        and q = "''cats''" and l = 5 and ms = "7 / 10" and response = "JObj [(''errors'', JArr [])]"
        and e = "Exception ''KeyError''"]
    search_never_raises_error[where
        aggregate = "Inr (JObj [(''data'', JObj [(''Aggregate'', JObj [(''Document'', JArr [])])])])"
        and response = "JObj [(''data'', JObj [(''Aggregate'', JObj [(''Document'', JArr [])])])]"
        and e = "Exception ''IndexError''"]
    r1 r2
  show ?thesis by simp
qed

lemma try_bind_Inr: "try_bind m f = Inr y \<Longrightarrow> \<exists>v. m = Inr v \<and> f v = Inr y"
  by (cases m) (simp_all add: try_bind_def)

lemma format_result_Some:
  assumes "format_result ms r = Inr (Some h)"
  shows "formats ms r h"
proof -
  from assms obtain certainty where 1: "certainty_of r = Inr certainty"
    and a: "try_bind (num_of certainty) (\<lambda>c.
       if c \<ge> ms then
         try_bind (getitem r ''content'') (\<lambda>v1.
         try_bind (getitem r ''page_number'') (\<lambda>v2.
         try_bind (getitem r ''file_name'') (\<lambda>v3.
         try_bind (getitem r ''chunk_number'') (\<lambda>v4.
           Inr (Some (JObj [(''content'', v1), (''page_number'', v2), (''file_name'', v3),
                            (''chunk_number'', v4),
                            (''relevance_score'', JNum (py_round2 (to_double (c * 100))))]))))))
       else Inr None) = Inr (Some h)"
    unfolding format_result_def by (blast dest: try_bind_Inr)
  from try_bind_Inr[OF a] obtain c where 2: "num_of certainty = Inr c"
    and b: "(if c \<ge> ms then
         try_bind (getitem r ''content'') (\<lambda>v1.
         try_bind (getitem r ''page_number'') (\<lambda>v2.
         try_bind (getitem r ''file_name'') (\<lambda>v3.
         try_bind (getitem r ''chunk_number'') (\<lambda>v4.
           Inr (Some (JObj [(''content'', v1), (''page_number'', v2), (''file_name'', v3),
                            (''chunk_number'', v4),
                            (''relevance_score'', JNum (py_round2 (to_double (c * 100))))]))))))
       else Inr None) = Inr (Some h)" by blast
  from b have 3: "ms \<le> c" by (auto split: if_splits)
  with b obtain v1 v2 v3 v4 where v: "getitem r ''content'' = Inr v1" "getitem r ''page_number'' = Inr v2"
    "getitem r ''file_name'' = Inr v3" "getitem r ''chunk_number'' = Inr v4"
    and h: "h = JObj [(''content'', v1), (''page_number'', v2), (''file_name'', v3),
                            (''chunk_number'', v4),
                            (''relevance_score'', JNum (py_round2 (to_double (c * 100))))]"
    by (auto dest!: try_bind_Inr)
  show ?thesis unfolding formats_def using 1 2 3 v h by auto
qed

lemma format_loop_subseq:
  "format_loop ms rs acc = Inr out \<Longrightarrow>
     \<exists>kept new. out = acc @ new \<and> subseq kept rs \<and> list_all2 (formats ms) kept new"
proof (induction rs arbitrary: acc)
  case Nil
  then show ?case by auto
next
  case (Cons r rs)
  show ?case
  proof (cases "format_result ms r")
    case (Inl e)
    with Cons.prems show ?thesis by simp
  next
    case (Inr res)
    show ?thesis
    proof (cases res)
      case None
      with Inr Cons.prems have "format_loop ms rs acc = Inr out" by simp
      from Cons.IH[OF this] obtain kept new where
        "out = acc @ new" "subseq kept rs" "list_all2 (formats ms) kept new" by blast
      then show ?thesis by (blast intro: list_emb_Cons)
    next
      case (Some h)
      with Inr Cons.prems have "format_loop ms rs (acc @ [h]) = Inr out" by simp
      from Cons.IH[OF this] obtain kept new where
        k: "out = (acc @ [h]) @ new" "subseq kept rs" "list_all2 (formats ms) kept new" by blast
      from Inr Some have "formats ms r h" by (simp add: format_result_Some)
      with k have "out = acc @ (h # new) \<and> subseq (r # kept) (r # rs) \<and> list_all2 (formats ms) (r # kept) (h # new)"
        by simp
      then show ?thesis by blast
    qed
  qed
qed

text \<open>Lower bounds through the float operations.\<close>

lemma half_even_ge_floor: "floor y \<le> half_even y"
  by (simp add: half_even_def Let_def)

lemma half_even_mono_int:
  assumes "of_int N \<le> y"
  shows "N \<le> half_even y"
proof -
  from assms have "N \<le> floor y" by (simp add: le_floor_iff)
  with half_even_ge_floor[of y] show ?thesis by simp
qed

lemma half_even_near_even:
  assumes "of_int N - 1 / 2 \<le> y" "even N"
  shows "N \<le> half_even y"
proof (cases "of_int N \<le> y")
  case True
  then show ?thesis by (rule half_even_mono_int)
next
  case False
  have "of_int (N - 1) \<le> y" using assms(1) by simp
  then have f1: "N - 1 \<le> floor y" by (simp add: le_floor_iff)
  from False have "floor y < N" by (simp add: floor_less_iff)
  with f1 have f: "floor y = N - 1" by simp
  then have d: "y - of_int (floor y) \<ge> 1 / 2" using assms(1) by simp
  have "odd (floor y)" using f assms(2) by simp
  with d f show ?thesis by (auto simp: half_even_def Let_def)
qed

lemma binade_bounds:
  assumes "0 < x"
  shows "2 powi binade x \<le> x \<and> x < 2 powi (binade x + 1)"
proof -
  obtain p q where pq: "quotient_of x = (p, q)" by (cases "quotient_of x")
  then have q: "0 < q" and x: "x = of_int p / of_int q"
    using quotient_of_denom_pos quotient_of_div by auto
  from assms x q have p: "0 < p" by (simp add: zero_less_divide_iff)
  define k where "k = bitlen p - bitlen q"
  from bitlen_bounds[OF p] have pb: "(2::rat) ^ nat (bitlen p - 1) \<le> of_int p" "of_int p < (2::rat) ^ nat (bitlen p)"
    by (metis of_int_le_iff of_int_numeral of_int_power, metis of_int_less_iff of_int_numeral of_int_power)
  from bitlen_bounds[OF q] have qb: "(2::rat) ^ nat (bitlen q - 1) \<le> of_int q" "of_int q < (2::rat) ^ nat (bitlen q)"
    by (metis of_int_le_iff of_int_numeral of_int_power, metis of_int_less_iff of_int_numeral of_int_power)
  have bp: "1 \<le> bitlen p" and bq: "1 \<le> bitlen q"
    using p q by (auto simp: bitlen_alt_def)
  have pb': "(2::rat) powi (bitlen p - 1) \<le> of_int p" "of_int p < (2::rat) powi (bitlen p)"
    using pb bp by (simp_all add: power_int_def)
  have qb': "(2::rat) powi (bitlen q - 1) \<le> of_int q" "of_int q < (2::rat) powi (bitlen q)"
    using qb bq by (simp_all add: power_int_def)
  have qpos: "(0::rat) < of_int q" using q by simp
  have up: "x < 2 powi (k + 1)"
  proof -
    have "of_int p < (2::rat) powi (k + 1) * 2 powi (bitlen q - 1)"
      using pb'(2) by (simp add: k_def power_int_add[symmetric])
    also have "\<dots> \<le> 2 powi (k + 1) * of_int q"
      using qb'(1) by (intro mult_left_mono) simp_all
    finally show ?thesis using qpos by (simp add: x pos_divide_less_eq)
  qed
  have lo: "2 powi (k - 1) \<le> x"
  proof -
    have "(2::rat) powi (k - 1) * of_int q \<le> 2 powi (k - 1) * 2 powi (bitlen q)"
      using qb'(2) by (intro mult_left_mono) simp_all
    also have "\<dots> = 2 powi (bitlen p - 1)"
      by (simp add: k_def power_int_add[symmetric])
    also have "\<dots> \<le> of_int p" by (rule pb'(1))
    finally show ?thesis using qpos by (simp add: x pos_le_divide_eq)
  qed
  have b: "binade x = (if 2 powi k \<le> x then k else k - 1)"
    by (simp add: binade_def pq k_def)
  show ?thesis
  proof (cases "2 powi k \<le> x")
    case True
    with b up show ?thesis by simp
  next
    case False
    with b lo show ?thesis by simp
  qed
qed

lemma to_double_ge_70:
  assumes "70 - 1 / 2 ^ 47 \<le> x"
  shows "70 \<le> to_double x"
proof -
  have x64: "64 \<le> x" using assms by simp
  then have pos: "0 < x" by simp
  define k where "k = binade x"
  from binade_bounds[OF pos] have kb: "2 powi k \<le> x" "x < 2 powi (k + 1)"
    by (simp_all add: k_def)
  have k6: "6 \<le> k"
  proof (rule ccontr)
    assume "\<not> 6 \<le> k"
    then have "k + 1 \<le> 6" by simp
    then have "(2::rat) powi (k + 1) \<le> 2 powi 6" by (intro power_int_increasing) simp_all
    with kb(2) x64 show False by simp
  qed
  have td: "to_double x = of_int (half_even (x / 2 powi (k - 52))) * 2 powi (k - 52)"
    using pos k6 by (simp add: to_double_def Let_def k_def[symmetric] max_def)
  show ?thesis
  proof (cases "k = 6")
    case True
    have m: "x / 2 powi (k - 52) = x * 2 ^ 46"
      using True by (simp add: power_int_def field_simps)
    have "of_int (70 * 2 ^ 46) - 1 / 2 \<le> x * 2 ^ 46"
      using assms by (simp add: field_simps)
    then have "70 * 2 ^ 46 \<le> half_even (x * 2 ^ 46)"
      by (rule half_even_near_even) simp
    then have "(of_int (70 * 2 ^ 46) :: rat) \<le> of_int (half_even (x * 2 ^ 46))"
      by (simp only: of_int_le_iff)
    then have "(70 :: rat) * 2 ^ 46 \<le> of_int (half_even (x * 2 ^ 46))" by simp
    then show ?thesis unfolding td m using True
      by (simp add: power_int_def field_simps)
  next
    case False
    with k6 have k7: "7 \<le> k" by simp
    have "(2::rat) powi k = 2 powi (52 + (k - 52))" by simp
    also have "\<dots> = 2 powi 52 * 2 powi (k - 52)" by (rule power_int_add) simp
    also have "(2::rat) powi 52 = 2 ^ 52" by (simp add: power_int_def)
    finally have p52: "(2::rat) powi k = 2 ^ 52 * 2 powi (k - 52)" .
    have ppos: "(0::rat) < 2 powi (k - 52)" by simp
    have "(2::rat) ^ 52 \<le> x / 2 powi (k - 52)"
      using kb(1) ppos unfolding p52 by (simp add: pos_le_divide_eq)
    then have "of_int (2 ^ 52) \<le> x / 2 powi (k - 52)" by simp
    then have "2 ^ 52 \<le> half_even (x / 2 powi (k - 52))" by (rule half_even_mono_int)
    then have "(of_int (2 ^ 52) :: rat) \<le> of_int (half_even (x / 2 powi (k - 52)))"
      by (simp only: of_int_le_iff)
    then have "(2::rat) ^ 52 * 2 powi (k - 52) \<le> to_double x"
      unfolding td using ppos by (intro mult_right_mono) simp_all
    then have "(2::rat) powi k \<le> to_double x" by (simp only: p52)
    moreover have "(2::rat) powi 7 \<le> 2 powi k" using k7 by (intro power_int_increasing) simp_all
    ultimately show ?thesis by simp
  qed
qed

lemma py_round2_ge_70:
  assumes "70 \<le> x"
  shows "70 \<le> py_round2 x"
proof -
  have "of_int 7000 \<le> x * 100" using assms by simp
  then have "7000 \<le> half_even (x * 100)" by (rule half_even_mono_int)
  then have "(of_int 7000 :: rat) \<le> of_int (half_even (x * 100))" by (simp only: of_int_le_iff)
  then have "70 \<le> (of_int (half_even (x * 100)) :: rat) / 100" by simp
  then have "70 - 1 / 2 ^ 47 \<le> (of_int (half_even (x * 100)) :: rat) / 100" by simp
  then show ?thesis unfolding py_round2_def by (rule to_double_ge_70)
qed

lemma to_double_07: "to_double (7 / 10) = 3152519739159347 / 4503599627370496"
  by code_simp

lemma relevance_ge_70:
  assumes "to_double (7 / 10) \<le> c"
  shows "70 \<le> py_round2 (to_double (c * 100))"
proof -
  from assms have "3152519739159347 / 4503599627370496 \<le> c" by (simp only: to_double_07)
  then have "70 - 1 / 2 ^ 47 \<le> c * 100" by simp
  then have "70 \<le> to_double (c * 100)" by (rule to_double_ge_70)
  then show ?thesis by (rule py_round2_ge_70)
qed

text \<open>
  C4, as the code has it: \<open>search\<close> hands the limit to the backend and never truncates the
  answer, so it returns at most as many results as the backend's answer lists (at most 5 when
  that list has at most 5 entries). The results are the formatted images, in the same order,
  of a subsequence of the backend's results; each kept result has a certainty of at least
  \<open>min_score\<close> (the double 0.7), and its image carries the \<open>relevance_score\<close>
  \<open>round(certainty * 100, 2)\<close>, computed on doubles, which is at least 70, with the other four
  fields unchanged.
\<close>

theorem search_default_results:
  assumes "near_text q 5 = Inr response" and "documents_of response = Inr docs"
    and "py_iter docs = Inr results"
  shows "\<exists>hits kept. search near_text q 5 (to_double (7 / 10)) = Inr hits \<and>
           length hits \<le> length results \<and> (length results \<le> 5 \<longrightarrow> length hits \<le> 5) \<and>
           subseq kept results \<and>
           list_all2 (\<lambda>r h. \<exists>certainty c. certainty_of r = Inr certainty \<and> num_of certainty = Inr c \<and>
               to_double (7 / 10) \<le> c \<and> 70 \<le> py_round2 (to_double (c * 100)) \<and>
               getitem h ''relevance_score'' = Inr (JNum (py_round2 (to_double (c * 100)))) \<and>
               getitem h ''content'' = getitem r ''content'' \<and>
               getitem h ''page_number'' = getitem r ''page_number'' \<and>
               getitem h ''file_name'' = getitem r ''file_name'' \<and>
               getitem h ''chunk_number'' = getitem r ''chunk_number'') kept hits"
proof -
  let ?ms = "to_double (7 / 10)"
  let ?R = "\<lambda>r h. \<exists>certainty c. certainty_of r = Inr certainty \<and> num_of certainty = Inr c \<and>
               ?ms \<le> c \<and> 70 \<le> py_round2 (to_double (c * 100)) \<and>
               getitem h ''relevance_score'' = Inr (JNum (py_round2 (to_double (c * 100)))) \<and>
               getitem h ''content'' = getitem r ''content'' \<and>
               getitem h ''page_number'' = getitem r ''page_number'' \<and>
               getitem h ''file_name'' = getitem r ''file_name'' \<and>
               getitem h ''chunk_number'' = getitem r ''chunk_number''"
  have R: "?R r h" if "formats ?ms r h" for r h
  proof -
    from that obtain certainty c where f: "certainty_of r = Inr certainty" "num_of certainty = Inr c"
      "?ms \<le> c" "getitem h ''relevance_score'' = Inr (JNum (py_round2 (to_double (c * 100))))"
      "getitem h ''content'' = getitem r ''content''"
      "getitem h ''page_number'' = getitem r ''page_number''"
      "getitem h ''file_name'' = getitem r ''file_name''"
      "getitem h ''chunk_number'' = getitem r ''chunk_number''"
      unfolding formats_def by blast
    from f(3) have "70 \<le> py_round2 (to_double (c * 100))" by (rule relevance_ge_70)
    with f show ?thesis by blast
  qed
  have resp: "format_response ?ms response = format_loop ?ms results []"
    using assms(2,3) by (simp add: format_response_def try_bind_def)
  show ?thesis
  proof (cases "format_loop ?ms results []")
    case (Inl e)
    from no_interrupt_format_loop[of ?ms results "[]"] Inl obtain m where "e = Exception m"
      by (cases e) (auto simp: no_interrupt_def)
    with Inl resp assms(1) have "search near_text q 5 ?ms = Inr []"
      by (simp add: search_def try_bind_def)
    moreover have "subseq [] results" "list_all2 ?R [] []" by simp_all
    ultimately show ?thesis by (intro exI[of _ "[]"]) simp
  next
    case (Inr out)
    from format_loop_subseq[OF Inr] obtain kept where
      k: "subseq kept results" "list_all2 (formats ?ms) kept out" by auto
    from k(2) have "list_all2 ?R kept out"
      by (rule list_all2_mono) (rule R)
    moreover from k have "length out \<le> length results"
      using list_emb_length[of "(=)" kept results] by (simp add: list_all2_lengthD[symmetric])
    moreover from Inr resp assms(1) have "search near_text q 5 ?ms = Inr out"
      by (simp add: search_def try_bind_def)
    ultimately show ?thesis using k(1) by force
  qed
qed

theorem search_default_results_witness:
  "search (\<lambda>q l. Inr (JObj [(''data'', JObj [(''Get'', JObj [(''Document'', JArr [
       JObj [(''content'', JStr ''x''), (''page_number'', JNum 1), (''file_name'', JStr ''f''),
             (''chunk_number'', JNum 1), (''_additional'', JObj [(''certainty'', JNum (7 / 10))])],
       JObj [(''content'', JStr ''y''), (''page_number'', JNum 1), (''file_name'', JStr ''f''),
             (''chunk_number'', JNum 2), (''_additional'', JObj [(''certainty'', JNum (69 / 100))])],
       JObj [(''content'', JStr ''z''), (''page_number'', JNum 2), (''file_name'', JStr ''f''),
             (''chunk_number'', JNum 1), (''_additional'', JObj [(''certainty'', JNum (70035 / 100000))])]
       ])])])])) ''cats'' 5 (to_double (7 / 10))
   = Inr [JObj [(''content'', JStr ''x''), (''page_number'', JNum 1), (''file_name'', JStr ''f''),
                (''chunk_number'', JNum 1), (''relevance_score'', JNum 70)],
          JObj [(''content'', JStr ''z''), (''page_number'', JNum 2), (''file_name'', JStr ''f''),
                (''chunk_number'', JNum 1),
                (''relevance_score'', JNum (2463961577380905 / 35184372088832))]]
   \<and> (70 :: rat) \<le> 2463961577380905 / 35184372088832
   \<and> (2463961577380905 / 35184372088832 :: rat) < 7004 / 100"
proof -
  let ?results = "[
       JObj [(''content'', JStr ''x''), (''page_number'', JNum 1), (''file_name'', JStr ''f''),
             (''chunk_number'', JNum 1), (''_additional'', JObj [(''certainty'', JNum (7 / 10))])],
       JObj [(''content'', JStr ''y''), (''page_number'', JNum 1), (''file_name'', JStr ''f''),
             (''chunk_number'', JNum 2), (''_additional'', JObj [(''certainty'', JNum (69 / 100))])],
       JObj [(''content'', JStr ''z''), (''page_number'', JNum 2), (''file_name'', JStr ''f''),
             (''chunk_number'', JNum 1), (''_additional'', JObj [(''certainty'', JNum (70035 / 100000))])]]"
  let ?response = "JObj [(''data'', JObj [(''Get'', JObj [(''Document'', JArr ?results)])])]"
  have a: "(\<lambda>q l. Inr ?response) ''cats'' (5::int) = Inr ?response" by simp
  have b: "documents_of ?response = Inr (JArr ?results)"
    by (simp add: documents_of_def try_bind_def)
  have c: "py_iter (JArr ?results) = Inr ?results" by simp
  from search_default_results[of "\<lambda>q l. Inr ?response", OF a b c]
  obtain hits where h: "search (\<lambda>q l. Inr ?response) ''cats'' 5 (to_double (7 / 10)) = Inr hits"
    by blast
  have "search (\<lambda>q l. Inr ?response) ''cats'' 5 (to_double (7 / 10)) =
     Inr [JObj [(''content'', JStr ''x''), (''page_number'', JNum 1), (''file_name'', JStr ''f''),
                (''chunk_number'', JNum 1), (''relevance_score'', JNum 70)],
          JObj [(''content'', JStr ''z''), (''page_number'', JNum 2), (''file_name'', JStr ''f''),
                (''chunk_number'', JNum 1),
                (''relevance_score'', JNum (2463961577380905 / 35184372088832))]]"
    by code_simp
  with h show ?thesis by simp
qed

text \<open>
  The claim as the specification states it fails: asked with limit 5, a backend whose answer
  lists six results with certainty 0.9 gets all six back from \<open>search\<close>.
\<close>

theorem search_returns_six:
  "search (\<lambda>q l. Inr (JObj [(''data'', JObj [(''Get'', JObj [(''Document'', JArr [
       JObj [(''content'', JStr ''a''), (''page_number'', JNum 1), (''file_name'', JStr ''f''),
             (''chunk_number'', JNum 1), (''_additional'', JObj [(''certainty'', JNum (9 / 10))])],
       JObj [(''content'', JStr ''b''), (''page_number'', JNum 2), (''file_name'', JStr ''f''),
             (''chunk_number'', JNum 1), (''_additional'', JObj [(''certainty'', JNum (9 / 10))])],
       JObj [(''content'', JStr ''c''), (''page_number'', JNum 3), (''file_name'', JStr ''f''),
             (''chunk_number'', JNum 1), (''_additional'', JObj [(''certainty'', JNum (9 / 10))])],
       JObj [(''content'', JStr ''d''), (''page_number'', JNum 4), (''file_name'', JStr ''f''),
             (''chunk_number'', JNum 1), (''_additional'', JObj [(''certainty'', JNum (9 / 10))])],
       JObj [(''content'', JStr ''e''), (''page_number'', JNum 5), (''file_name'', JStr ''f''),
             (''chunk_number'', JNum 1), (''_additional'', JObj [(''certainty'', JNum (9 / 10))])],
       JObj [(''content'', JStr ''f''), (''page_number'', JNum 6), (''file_name'', JStr ''f''),
             (''chunk_number'', JNum 1), (''_additional'', JObj [(''certainty'', JNum (9 / 10))])]
       ])])])])) ''cats'' 5 (to_double (7 / 10))
   = Inr [JObj [(''content'', JStr ''a''), (''page_number'', JNum 1), (''file_name'', JStr ''f''),
                (''chunk_number'', JNum 1), (''relevance_score'', JNum 90)],
          JObj [(''content'', JStr ''b''), (''page_number'', JNum 2), (''file_name'', JStr ''f''),
                (''chunk_number'', JNum 1), (''relevance_score'', JNum 90)],
          JObj [(''content'', JStr ''c''), (''page_number'', JNum 3), (''file_name'', JStr ''f''),
                (''chunk_number'', JNum 1), (''relevance_score'', JNum 90)],
          JObj [(''content'', JStr ''d''), (''page_number'', JNum 4), (''file_name'', JStr ''f''),
                (''chunk_number'', JNum 1), (''relevance_score'', JNum 90)],
          JObj [(''content'', JStr ''e''), (''page_number'', JNum 5), (''file_name'', JStr ''f''),
                (''chunk_number'', JNum 1), (''relevance_score'', JNum 90)],
          JObj [(''content'', JStr ''f''), (''page_number'', JNum 6), (''file_name'', JStr ''f''),
                (''chunk_number'', JNum 1), (''relevance_score'', JNum 90)]]"
  by code_simp

section \<open>Calls and interrupts of the ingestion pipeline\<close>

lemma trace_log_call [simp]: "trace (log_call c out w) = trace w @ [(c, out)]"
  and inserts_log_call [simp]: "inserts (log_call c out w) = inserts w"
  and get_documents_log_call [simp]: "get_documents (log_call c out w) = get_documents w"
  and write_file_log_call [simp]: "write_file (log_call c out w) = write_file w"
  and now_log_call [simp]: "now (log_call c out w) = now w"
  by (simp_all add: log_call_def)

lemma interrupts_simps [simp]:
  "\<not> interrupts []"
  "interrupts (ev # evs) = (snd ev = Some KeyboardInterrupt \<or> interrupts evs)"
  "interrupts (evs @ evs') = (interrupts evs \<or> interrupts evs')"
  by (auto simp: interrupts_def)

lemma ki_last_Nil [simp]: "ki_last False []"
  by (simp add: ki_last_def)

lemma ki_last_single: "ki_last (out = Some KeyboardInterrupt) [(c, out)]"
  by (simp add: ki_last_def)

lemma ki_last_append:
  "ki_last False evs \<Longrightarrow> ki_last raised evs' \<Longrightarrow> ki_last raised (evs @ evs')"
  by (auto simp: ki_last_def butlast_append)

lemma ki_last_iff: "ki_last raised evs \<Longrightarrow> raised = interrupts evs"
  by (cases evs rule: rev_cases) (auto simp: ki_last_def split: if_splits)

lemma except_Exception_KI [simp]:
  "(except_Exception e = Some KeyboardInterrupt) = (e = KeyboardInterrupt)"
  "except_Exception e \<noteq> Some (Exception m)"
  "(except_Exception e = Some e') = (e = KeyboardInterrupt \<and> e' = KeyboardInterrupt)"
  by (cases e; auto simp: except_Exception_def)+

lemma process_batch_trace:
  "process_batch batch w = (r, w') \<Longrightarrow> trace w' = trace w @ [(Insert batch, r)]"
  by (auto simp: process_batch_def split: list.splits)

lemma process_batch_ki:
  assumes "process_batch batch w = (r, w')"
  shows "\<exists>evs. trace w' = trace w @ evs \<and> ki_last (r = Some KeyboardInterrupt) evs"
  using process_batch_trace[OF assms] ki_last_single[of r "Insert batch"] by blast

lemma add_chunks_skip:
  "strip chunk = [] \<Longrightarrow>
     add_chunks bs name k ((n, chunk) # rest) batch w = add_chunks bs name k rest batch w"
  by simp

lemma add_chunks_keep:
  "strip chunk \<noteq> [] \<Longrightarrow> \<not> bs \<le> int (length batch) + 1 \<Longrightarrow>
     add_chunks bs name k ((n, chunk) # rest) batch w =
       add_chunks bs name k rest (batch @ [properties name k n chunk]) w"
  by (simp add: Let_def)

lemma add_chunks_flush:
  "strip chunk \<noteq> [] \<Longrightarrow> bs \<le> int (length batch) + 1 \<Longrightarrow>
     process_batch (batch @ [properties name k n chunk]) w = (None, w1) \<Longrightarrow>
     add_chunks bs name k ((n, chunk) # rest) batch w = add_chunks bs name k rest [] w1"
  by (simp add: Let_def)

lemma add_chunks_fail:
  "strip chunk \<noteq> [] \<Longrightarrow> bs \<le> int (length batch) + 1 \<Longrightarrow>
     process_batch (batch @ [properties name k n chunk]) w = (Some e, w1) \<Longrightarrow>
     add_chunks bs name k ((n, chunk) # rest) batch w =
       (Some e, batch @ [properties name k n chunk], w1)"
  by (simp add: Let_def)

lemma add_chunks_step:
  obtains (skip) "strip chunk = []"
      "add_chunks bs name k ((n, chunk) # rest) batch w = add_chunks bs name k rest batch w"
  | (keep) "strip chunk \<noteq> []" "\<not> bs \<le> int (length batch) + 1"
      "add_chunks bs name k ((n, chunk) # rest) batch w =
         add_chunks bs name k rest (batch @ [properties name k n chunk]) w"
  | (flush) w1 where "strip chunk \<noteq> []" "bs \<le> int (length batch) + 1"
      "process_batch (batch @ [properties name k n chunk]) w = (None, w1)"
      "add_chunks bs name k ((n, chunk) # rest) batch w = add_chunks bs name k rest [] w1"
  | (fail) e w1 where "strip chunk \<noteq> []" "bs \<le> int (length batch) + 1"
      "process_batch (batch @ [properties name k n chunk]) w = (Some e, w1)"
      "add_chunks bs name k ((n, chunk) # rest) batch w =
         (Some e, batch @ [properties name k n chunk], w1)"
proof (cases "strip chunk = []")
  case True
  then show ?thesis using skip add_chunks_skip by blast
next
  case nonblank: False
  show ?thesis
  proof (cases "bs \<le> int (length batch) + 1")
    case False
    with nonblank show ?thesis using keep add_chunks_keep by blast
  next
    case True
    obtain r w1 where pb: "process_batch (batch @ [properties name k n chunk]) w = (r, w1)"
      by (cases "process_batch (batch @ [properties name k n chunk]) w")
    show ?thesis
    proof (cases r)
      case None
      with nonblank True pb show ?thesis using flush add_chunks_flush by blast
    next
      case (Some e)
      with nonblank True pb show ?thesis using fail add_chunks_fail by blast
    qed
  qed
qed

lemma add_chunks_ki:
  "add_chunks bs name k cs batch w = (r, batch', w') \<Longrightarrow>
     \<exists>evs. trace w' = trace w @ evs \<and> ki_last (r = Some KeyboardInterrupt) evs"
proof (induction cs arbitrary: batch w)
  case Nil
  then show ?case by simp
next
  case (Cons c cs)
  obtain n chunk where c: "c = (n, chunk)" by (cases c)
  show ?case
  proof (cases rule: add_chunks_step[of chunk bs name k n cs batch w])
    case skip
    with Cons c show ?thesis by simp
  next
    case keep
    with Cons c show ?thesis by simp
  next
    case (flush w1)
    from process_batch_ki[OF flush(3)] obtain evs1 where
      e1: "trace w1 = trace w @ evs1" "ki_last False evs1" by auto
    from Cons.prems c flush(4) have "add_chunks bs name k cs [] w1 = (r, batch', w')" by simp
    from Cons.IH[OF this] obtain evs2 where
      "trace w' = trace w1 @ evs2" "ki_last (r = Some KeyboardInterrupt) evs2" by blast
    with e1 show ?thesis by (intro exI[of _ "evs1 @ evs2"]) (simp add: ki_last_append)
  next
    case (fail e w1)
    with Cons.prems c have "r = Some e" "w' = w1" by simp_all
    with process_batch_ki[OF fail(3)] show ?thesis by simp
  qed
qed

lemma process_page_cases:
  assumes "process_page bs name k page batch w = (r, batch', w')"
  obtains (raised) e where "page = Inl e" "r = except_Exception e" "batch' = batch"
      "w' = log_call (Extract name k) (Some e) w"
  | (blank) t where "page = Inr t" "strip t = []" "r = None" "batch' = batch"
      "w' = log_call (Extract name k) None w"
  | (chunked) t where "page = Inr t" "strip t \<noteq> []" "r = None"
      "add_chunks bs name k (enumerate 0 (chunk_text t 5000)) batch
         (log_call (Extract name k) None w) = (None, batch', w')"
  | (failed) t e where "page = Inr t" "strip t \<noteq> []" "r = except_Exception e"
      "add_chunks bs name k (enumerate 0 (chunk_text t 5000)) batch
         (log_call (Extract name k) None w) = (Some e, batch', w')"
proof (cases page)
  case (Inl e)
  with assms show ?thesis using raised by (simp add: process_page_def outcome_def)
next
  case (Inr t)
  show ?thesis
  proof (cases "strip t = []")
    case True
    with Inr assms show ?thesis using blank by (auto simp: process_page_def outcome_def)
  next
    case False
    then have ne: "t \<noteq> []" by (auto simp: strip_def)
    obtain r0 b0 w0 where ac: "add_chunks bs name k (enumerate 0 (chunk_text t 5000)) batch
         (log_call (Extract name k) None w) = (r0, b0, w0)"
      by (metis prod_cases3)
    show ?thesis
    proof (cases r0)
      case None
      with Inr False ne ac assms show ?thesis using chunked[of t]
        by (auto simp: process_page_def outcome_def)
    next
      case (Some e)
      with Inr False ne ac assms show ?thesis using failed[of t e]
        by (auto simp: process_page_def outcome_def)
    qed
  qed
qed

lemma process_page_ki:
  assumes "process_page bs name k page batch w = (r, batch', w')"
  shows "\<exists>evs. trace w' = trace w @ evs \<and> ki_last (r = Some KeyboardInterrupt) evs"
  using assms
proof (cases rule: process_page_cases)
  case (raised e)
  then show ?thesis using ki_last_single[of "Some e" "Extract name k"] by simp
next
  case (blank t)
  then show ?thesis using ki_last_single[of None "Extract name k"] by simp
next
  case (chunked t)
  from add_chunks_ki[OF chunked(4)] obtain evs where
    "trace w' = trace w @ (Extract name k, None) # evs" "ki_last False evs" by auto
  moreover have "ki_last False [(Extract name k, None)]" using ki_last_single[of None] by simp
  ultimately show ?thesis using chunked(3) ki_last_append[of "[(Extract name k, None)]"]
    by (intro exI[of _ "(Extract name k, None) # evs"]) auto
next
  case (failed t e)
  from add_chunks_ki[OF failed(4)] obtain evs where
    "trace w' = trace w @ (Extract name k, None) # evs" "ki_last (e = KeyboardInterrupt) evs" by auto
  moreover have "ki_last False [(Extract name k, None)]" using ki_last_single[of None] by simp
  ultimately show ?thesis using failed(3) ki_last_append[of "[(Extract name k, None)]"]
    by (intro exI[of _ "(Extract name k, None) # evs"]) auto
qed

lemma pages_loop_ki:
  "pages_loop bs name k pages batch w = (r, batch', w') \<Longrightarrow>
     \<exists>evs. trace w' = trace w @ evs \<and> ki_last (r = Some KeyboardInterrupt) evs"
proof (induction pages arbitrary: k batch w)
  case Nil
  then show ?case by simp
next
  case (Cons page pages)
  obtain r1 b1 w1 where pp: "process_page bs name k page batch w = (r1, b1, w1)"
    by (metis prod_cases3)
  from process_page_ki[OF pp] obtain evs1 where
    e1: "trace w1 = trace w @ evs1" "ki_last (r1 = Some KeyboardInterrupt) evs1" by blast
  show ?case
  proof (cases r1)
    case None
    with pp Cons.prems have "pages_loop bs name (Suc k) pages b1 w1 = (r, batch', w')" by simp
    from Cons.IH[OF this] obtain evs2 where
      "trace w' = trace w1 @ evs2" "ki_last (r = Some KeyboardInterrupt) evs2" by blast
    with e1 None show ?thesis by (intro exI[of _ "evs1 @ evs2"]) (simp add: ki_last_append)
  next
    case (Some e)
    with pp Cons.prems have "r = r1" "w' = w1" by simp_all
    with e1 show ?thesis by blast
  qed
qed

lemma no_interrupt_has_documents [simp]: "no_interrupt (has_documents result)"
  unfolding has_documents_def
  by (auto intro!: no_interrupt_try_bind)

lemma no_interrupt_backup_data [simp]: "no_interrupt (backup_data filename timestamp result)"
  unfolding backup_data_def
  by (auto intro!: no_interrupt_try_bind)

lemma backup_handler_Exception:
  "no_interrupt (Inl e :: exn + 'a) \<Longrightarrow> backup_handler e = Inr (Some False)"
  by (cases e) (simp_all add: backup_handler_def no_interrupt_def)

lemma create_backup_cases:
  assumes "create_backup filename w = (r, w')"
  obtains (query_raised) e where "get_documents w filename = Inl e" "r = backup_handler e"
      "w' = log_call (Query filename) (Some e) w"
  | (not_written) result where "get_documents w filename = Inr result"
      "r = Inr None \<or> r = Inr (Some False)" "w' = log_call (Query filename) None w"
  | (written) result data out where "get_documents w filename = Inr result"
      "backup_data filename (now w) result = Inr data"
      "out = write_file w (''weaviate_backups/backup_'' @ filename @ ''_'' @ now w @ ''.json'')"
      "r = (case out of None \<Rightarrow> Inr (Some True) | Some e \<Rightarrow> backup_handler e)"
      "w' = log_call (Write (''weaviate_backups/backup_'' @ filename @ ''_'' @ now w @ ''.json'') data)
              out (log_call (Query filename) None w)"
proof (cases "get_documents w filename")
  case (Inl e)
  with assms show ?thesis using query_raised[of e]
    by (simp add: create_backup_def outcome_def)
next
  case (Inr result)
  show ?thesis
  proof (cases "has_documents result")
    case (Inl e)
    with no_interrupt_has_documents[of result] have "backup_handler e = Inr (Some False)"
      by (simp add: backup_handler_Exception)
    with Inl Inr assms show ?thesis using not_written[of result]
      by (simp add: create_backup_def outcome_def)
  next
    case has: (Inr b)
    show ?thesis
    proof (cases b)
      case False
      with has Inr assms show ?thesis using not_written[of result]
        by (simp add: create_backup_def outcome_def)
    next
      case True
      show ?thesis
      proof (cases "backup_data filename (now w) result")
        case (Inl e)
        with no_interrupt_backup_data[of filename "now w" result]
        have "backup_handler e = Inr (Some False)"
          by (simp add: backup_handler_Exception)
        with Inl True has Inr assms show ?thesis using not_written[of result]
          by (simp add: create_backup_def outcome_def)
      next
        case data: (Inr data)
        with True has Inr assms show ?thesis using written[of result data]
          by (auto simp: create_backup_def outcome_def Let_def split: option.splits)
      qed
    qed
  qed
qed

lemma backup_handler_simps [simp]:
  "(backup_handler e = Inl e') = (e = KeyboardInterrupt \<and> e' = KeyboardInterrupt)"
  by (cases e) (auto simp: backup_handler_def)

lemma create_backup_ki:
  assumes "create_backup filename w = (r, w')"
  shows "\<exists>evs. trace w' = trace w @ evs \<and> ki_last (r = Inl KeyboardInterrupt) evs"
  using assms
proof (cases rule: create_backup_cases)
  case (query_raised e)
  then show ?thesis using ki_last_single[of "Some e" "Query filename"] by simp
next
  case (not_written result)
  then show ?thesis using ki_last_single[of None "Query filename"] by auto
next
  case (written result data out)
  have "ki_last (r = Inl KeyboardInterrupt)
          ([(Query filename, None)] @ [(Write (''weaviate_backups/backup_'' @ filename @ ''_'' @ now w @ ''.json'') data, out)])"
    using written(4) ki_last_single[of out] ki_last_single[of None "Query filename"]
    by (intro ki_last_append) (auto split: option.splits)
  with written(5) show ?thesis by simp
qed

lemma create_backup_no_Exception:
  "create_backup filename w = (r, w') \<Longrightarrow> r \<noteq> Inl (Exception m)"
  by (erule create_backup_cases) (auto split: option.splits)

lemma process_pdf_cases:
  assumes "process_pdf bs f w = (r, w')"
  obtains (unreadable) e where "pdf_pages f = Inl e" "r = except_Exception e"
      "w' = log_call (Open (pdf_name f)) (Some e) w"
  | (page_raised) pages e batch where "pdf_pages f = Inr pages" "r = except_Exception e"
      "pages_loop bs (pdf_name f) 0 pages [] (log_call (Open (pdf_name f)) None w) = (Some e, batch, w')"
  | (flush_raised) pages batch w2 e where "pdf_pages f = Inr pages" "r = except_Exception e"
      "pages_loop bs (pdf_name f) 0 pages [] (log_call (Open (pdf_name f)) None w) = (None, batch, w2)"
      "batch \<noteq> []" "process_batch batch w2 = (Some e, w')"
  | (backed_up) pages batch w2 w3 b where "pdf_pages f = Inr pages"
      "pages_loop bs (pdf_name f) 0 pages [] (log_call (Open (pdf_name f)) None w) = (None, batch, w2)"
      "(if batch \<noteq> [] then process_batch batch w2 else (None, w2)) = (None, w3)"
      "create_backup (pdf_name f) w3 = (b, w')"
      "r = (case b of Inl e \<Rightarrow> except_Exception e | Inr v \<Rightarrow> None)"
proof (cases "pdf_pages f")
  case (Inl e)
  with assms show ?thesis using unreadable[of e] by (simp add: process_pdf_def outcome_def)
next
  case (Inr pages)
  obtain r1 batch w2 where pl:
    "pages_loop bs (pdf_name f) 0 pages [] (log_call (Open (pdf_name f)) None w) = (r1, batch, w2)"
    by (metis prod_cases3)
  show ?thesis
  proof (cases r1)
    case (Some e)
    with pl Inr assms show ?thesis using page_raised[of pages e batch]
      by (auto simp: process_pdf_def outcome_def)
  next
    case None
    obtain r3 w3 where fl: "(if batch \<noteq> [] then process_batch batch w2 else (None, w2)) = (r3, w3)"
      by (metis surj_pair)
    show ?thesis
    proof (cases r3)
      case (Some e)
      with fl have "batch \<noteq> []" "process_batch batch w2 = (Some e, w3)" by (auto split: if_splits)
      with Some None pl Inr assms fl show ?thesis using flush_raised[of pages e batch w2]
        by (auto simp: process_pdf_def outcome_def)
    next
      case r3: None
      obtain b w4 where cb: "create_backup (pdf_name f) w3 = (b, w4)" by (metis surj_pair)
      with r3 None pl Inr assms fl show ?thesis using backed_up[of pages batch w2 w3 b]
        by (cases b) (auto simp: process_pdf_def outcome_def)
    qed
  qed
qed


lemma process_pdf_ki:
  assumes "process_pdf bs f w = (r, w')"
  shows "\<exists>evs. trace w' = trace w @ (Open (pdf_name f), outcome (pdf_pages f)) # evs \<and>
           ki_last (r = Some KeyboardInterrupt) ((Open (pdf_name f), outcome (pdf_pages f)) # evs)"
  using assms
proof (cases rule: process_pdf_cases)
  case (unreadable e)
  then show ?thesis using ki_last_single[of "Some e" "Open (pdf_name f)"]
    by (simp add: outcome_def)
next
  case (page_raised pages e batch)
  from pages_loop_ki[OF page_raised(3)] obtain evs where
    "trace w' = trace w @ (Open (pdf_name f), None) # evs" "ki_last (e = KeyboardInterrupt) evs"
    by auto
  with page_raised(1,2) show ?thesis
    using ki_last_append[of "[(Open (pdf_name f), None)]" _ evs] ki_last_single[of None "Open (pdf_name f)"]
    by (auto simp: outcome_def)
next
  case (flush_raised pages batch w2 e)
  from pages_loop_ki[OF flush_raised(3)] obtain evs where
    e1: "trace w2 = trace w @ (Open (pdf_name f), None) # evs" "ki_last False evs"
    by auto
  from process_batch_ki[OF flush_raised(5)] obtain evs2 where
    e2: "trace w' = trace w2 @ evs2" "ki_last (e = KeyboardInterrupt) evs2" by auto
  have "ki_last (e = KeyboardInterrupt) ([(Open (pdf_name f), None)] @ evs @ evs2)"
    using e1(2) e2(2) ki_last_single[of None "Open (pdf_name f)"] by (intro ki_last_append) auto
  with e1 e2 flush_raised(1,2) show ?thesis by (auto simp: outcome_def)
next
  case (backed_up pages batch w2 w3 b)
  from pages_loop_ki[OF backed_up(2)] obtain evs where
    e1: "trace w2 = trace w @ (Open (pdf_name f), None) # evs" "ki_last False evs"
    by auto
  have "\<exists>evs2. trace w3 = trace w2 @ evs2 \<and> ki_last False evs2"
  proof (cases "batch = []")
    case True
    with backed_up(3) show ?thesis by auto
  next
    case False
    with backed_up(3) have "process_batch batch w2 = (None, w3)" by simp
    from process_batch_ki[OF this] show ?thesis by simp
  qed
  then obtain evs2 where e2: "trace w3 = trace w2 @ evs2" "ki_last False evs2" by blast
  from create_backup_ki[OF backed_up(4)] obtain evs3 where
    e3: "trace w' = trace w3 @ evs3" "ki_last (b = Inl KeyboardInterrupt) evs3" by blast
  have "(r = Some KeyboardInterrupt) = (b = Inl KeyboardInterrupt)"
    using backed_up(5) by (cases b) auto
  with e3 have "ki_last (r = Some KeyboardInterrupt) ([(Open (pdf_name f), None)] @ evs @ evs2 @ evs3)"
    using e1(2) e2(2) ki_last_single[of None "Open (pdf_name f)"] by (intro ki_last_append) auto
  with e1 e2 e3 backed_up(1) show ?thesis by (auto simp: outcome_def)
qed

lemma new_calls_append [simp]: "trace w' = trace w @ evs \<Longrightarrow> new_calls w w' = evs"
  by (simp add: new_calls_def)

lemma files_loop_ki:
  "files_loop bs files w = (r, w') \<Longrightarrow>
     \<exists>evs. trace w' = trace w @ evs \<and> ki_last (r = Some KeyboardInterrupt) evs \<and>
       (r = None \<or> r = Some KeyboardInterrupt) \<and>
       (r = None \<longrightarrow> (\<forall>f\<in>set files. \<exists>out. (Open (pdf_name f), out) \<in> set evs))"
proof (induction files arbitrary: w)
  case Nil
  then show ?case by simp
next
  case (Cons f files)
  obtain r1 w1 where pp: "process_pdf bs f w = (r1, w1)" by (metis surj_pair)
  from process_pdf_ki[OF pp] obtain evs1 where
    e1: "trace w1 = trace w @ (Open (pdf_name f), outcome (pdf_pages f)) # evs1"
      "ki_last (r1 = Some KeyboardInterrupt) ((Open (pdf_name f), outcome (pdf_pages f)) # evs1)"
    by blast
  show ?case
  proof (cases "r1 = Some KeyboardInterrupt")
    case True
    with pp Cons.prems have "r = Some KeyboardInterrupt" "w' = w1" by simp_all
    with e1 True show ?thesis by auto
  next
    case False
    with pp Cons.prems have "files_loop bs files w1 = (r, w')"
      by (cases r1) (auto split: exn.splits)
    from Cons.IH[OF this] obtain evs2 where
      e2: "trace w' = trace w1 @ evs2" "ki_last (r = Some KeyboardInterrupt) evs2"
        "r = None \<or> r = Some KeyboardInterrupt"
        "r = None \<longrightarrow> (\<forall>f\<in>set files. \<exists>out. (Open (pdf_name f), out) \<in> set evs2)"
      by blast
    let ?evs = "((Open (pdf_name f), outcome (pdf_pages f)) # evs1) @ evs2"
    have "trace w' = trace w @ ?evs" using e1 e2 by simp
    moreover have "ki_last (r = Some KeyboardInterrupt) ?evs"
      using e1(2) e2(2) False by (intro ki_last_append) simp_all
    moreover have "r = None \<longrightarrow> (\<forall>g\<in>set (f # files). \<exists>out. (Open (pdf_name g), out) \<in> set ?evs)"
      using e2(4) by auto
    ultimately show ?thesis using e2(3) by blast
  qed
qed

section \<open>Interrupts and the directory walk\<close>

lemmas run_simps = process_directory_def process_pdf_def process_page_def process_batch_def
  create_backup_def has_documents_def backup_data_def documents_of_def backup_handler_def
  try_bind_def outcome_def except_Exception_def log_call_def properties_def chunk_text_def
  split_def strip_def isspace_def whitespace_def quiet_world_def Let_def

text \<open>
  C9: the calls that \<open>process_directory\<close> makes contain an interrupted one exactly when
  \<open>process_directory\<close> raises \<open>KeyboardInterrupt\<close>, and then the interrupted call is the
  last call made: no handler swallows the interrupt and nothing is touched after it. No other
  exception of a file comes out (only a failure of the directory listing is re-raised), and
  unless interrupted the walk opens every file of the directory.
\<close>

theorem interrupt_propagates:
  assumes "process_directory bs directory w = (r, w')"
  shows "(r = Some KeyboardInterrupt) = interrupts (new_calls w w')
     \<and> (r = Some KeyboardInterrupt \<longrightarrow>
          snd (last (new_calls w w')) = Some KeyboardInterrupt \<and> \<not> interrupts (butlast (new_calls w w')))
     \<and> (\<forall>m. r = Some (Exception m) \<longrightarrow> directory = Inl (Exception m))
     \<and> (\<forall>files. directory = Inr files \<longrightarrow> r \<noteq> Some KeyboardInterrupt \<longrightarrow>
          r = None \<and> (\<forall>f\<in>set files. \<exists>out. (Open (pdf_name f), out) \<in> set (new_calls w w')))"
proof -
  have "\<exists>evs. trace w' = trace w @ evs \<and> ki_last (r = Some KeyboardInterrupt) evs \<and>
       (\<forall>m. r = Some (Exception m) \<longrightarrow> directory = Inl (Exception m)) \<and>
       (\<forall>files. directory = Inr files \<longrightarrow> r \<noteq> Some KeyboardInterrupt \<longrightarrow>
          r = None \<and> (\<forall>f\<in>set files. \<exists>out. (Open (pdf_name f), out) \<in> set evs))"
  proof (cases directory)
    case (Inl e)
    with assms have "r = Some e" "w' = log_call Glob (Some e) w"
      by (auto simp: process_directory_def outcome_def)
    with Inl show ?thesis using ki_last_single[of "Some e" Glob] by simp
  next
    case (Inr files)
    show ?thesis
    proof (cases "files = []")
      case True
      with Inr assms have "r = None" "w' = log_call Glob None w"
        by (auto simp: process_directory_def outcome_def)
      with Inr True show ?thesis using ki_last_single[of None Glob] by simp
    next
      case False
      with Inr assms have "files_loop bs files (log_call Glob None w) = (r, w')"
        by (simp add: process_directory_def outcome_def)
      from files_loop_ki[OF this] obtain evs where
        e: "trace w' = trace w @ (Glob, None) # evs" "ki_last (r = Some KeyboardInterrupt) evs"
          "r = None \<or> r = Some KeyboardInterrupt"
          "r = None \<longrightarrow> (\<forall>f\<in>set files. \<exists>out. (Open (pdf_name f), out) \<in> set evs)"
        by auto
      have "ki_last (r = Some KeyboardInterrupt) ([(Glob, None)] @ evs)"
        using e(2) ki_last_single[of None Glob] by (intro ki_last_append) simp_all
      with e Inr show ?thesis by (intro exI[of _ "(Glob, None) # evs"]) auto
    qed
  qed
  then obtain evs where e: "trace w' = trace w @ evs" "ki_last (r = Some KeyboardInterrupt) evs"
    "\<forall>m. r = Some (Exception m) \<longrightarrow> directory = Inl (Exception m)"
    "\<forall>files. directory = Inr files \<longrightarrow> r \<noteq> Some KeyboardInterrupt \<longrightarrow>
          r = None \<and> (\<forall>f\<in>set files. \<exists>out. (Open (pdf_name f), out) \<in> set evs)"
    by blast
  from e(1) have n: "new_calls w w' = evs" by simp
  from e(2) have "(r = Some KeyboardInterrupt) = interrupts evs" by (rule ki_last_iff)
  moreover from e(2) have "r = Some KeyboardInterrupt \<longrightarrow>
          snd (last evs) = Some KeyboardInterrupt \<and> \<not> interrupts (butlast evs)"
    by (simp add: ki_last_def)
  ultimately show ?thesis using e(3,4) unfolding n by blast
qed

theorem interrupt_propagates_witness:
  "fst (process_directory 50
          (Inr [\<lparr>pdf_name = ''a.pdf'', pdf_pages = Inl (Exception ''PdfReadError'')\<rparr>,
                \<lparr>pdf_name = ''b.pdf'', pdf_pages = Inr [Inr ''hello world'', Inl KeyboardInterrupt]\<rparr>,
                \<lparr>pdf_name = ''c.pdf'', pdf_pages = Inr [Inr ''never read'']\<rparr>])
          quiet_world) = Some KeyboardInterrupt
   \<and> new_calls quiet_world (snd (process_directory 50
          (Inr [\<lparr>pdf_name = ''a.pdf'', pdf_pages = Inl (Exception ''PdfReadError'')\<rparr>,
                \<lparr>pdf_name = ''b.pdf'', pdf_pages = Inr [Inr ''hello world'', Inl KeyboardInterrupt]\<rparr>,
                \<lparr>pdf_name = ''c.pdf'', pdf_pages = Inr [Inr ''never read'']\<rparr>])
          quiet_world))
      = [(Glob, None), (Open ''a.pdf'', Some (Exception ''PdfReadError'')), (Open ''b.pdf'', None),
         (Extract ''b.pdf'' 0, None), (Extract ''b.pdf'' 1, Some KeyboardInterrupt)]
   \<and> interrupts (new_calls quiet_world (snd (process_directory 50
          (Inr [\<lparr>pdf_name = ''a.pdf'', pdf_pages = Inl (Exception ''PdfReadError'')\<rparr>,
                \<lparr>pdf_name = ''b.pdf'', pdf_pages = Inr [Inr ''hello world'', Inl KeyboardInterrupt]\<rparr>,
                \<lparr>pdf_name = ''c.pdf'', pdf_pages = Inr [Inr ''never read'']\<rparr>])
          quiet_world)))"
proof -
  let ?d = "Inr [\<lparr>pdf_name = ''a.pdf'', pdf_pages = Inl (Exception ''PdfReadError'')\<rparr>,
                \<lparr>pdf_name = ''b.pdf'', pdf_pages = Inr [Inr ''hello world'', Inl KeyboardInterrupt]\<rparr>,
                \<lparr>pdf_name = ''c.pdf'', pdf_pages = Inr [Inr ''never read'']\<rparr>]"
  have run: "process_directory 50 ?d quiet_world =
      (Some KeyboardInterrupt, quiet_world\<lparr>trace :=
        [(Glob, None), (Open ''a.pdf'', Some (Exception ''PdfReadError'')), (Open ''b.pdf'', None),
         (Extract ''b.pdf'' 0, None), (Extract ''b.pdf'' 1, Some KeyboardInterrupt)]\<rparr>)"
    by (simp add: run_simps)
  have tr: "trace quiet_world = []" by (simp add: quiet_world_def)
  from interrupt_propagates[OF run] run tr show ?thesis by (simp add: new_calls_def)
qed

section \<open>The backup snapshot\<close>

lemma backup_data_Inr:
  assumes "backup_data filename timestamp result = Inr data"
  shows "\<exists>chunks n. documents_of result = Inr chunks \<and> py_len chunks = Inr n \<and>
           data = JObj [(''metadata'', JObj [(''filename'', JStr filename),
                                             (''backup_time'', JStr timestamp),
                                             (''total_chunks'', JNum (of_nat n))]),
                        (''chunks'', chunks)]"
  using assms unfolding backup_data_def
  by (auto dest!: try_bind_Inr)

text \<open>
  C8: a snapshot that \<open>_create_backup\<close> writes has a \<open>chunks\<close> entry, and its
  \<open>metadata.total_chunks\<close> is the \<open>len\<close> of that entry: when \<open>chunks\<close> is an array, the
  number of its entries.
\<close>

theorem backup_total_chunks:
  assumes "(Write path snapshot, None) \<in> set (new_calls w (snd (create_backup filename w)))"
  shows "\<exists>chunks n. getitem snapshot ''chunks'' = Inr chunks \<and> py_len chunks = Inr n \<and>
           try_bind (getitem snapshot ''metadata'') (\<lambda>m. getitem m ''total_chunks'')
             = Inr (JNum (of_nat n)) \<and>
           (\<forall>entries. chunks = JArr entries \<longrightarrow> n = length entries)"
proof -
  obtain r w' where cb: "create_backup filename w = (r, w')" by (metis surj_pair)
  from cb show ?thesis
  proof (cases rule: create_backup_cases)
    case (query_raised e)
    with assms cb show ?thesis by (simp add: new_calls_def)
  next
    case (not_written result)
    with assms cb show ?thesis by (simp add: new_calls_def)
  next
    case (written result data out)
    with assms cb have "snapshot = data" by (simp add: new_calls_def)
    with backup_data_Inr[OF written(2)] obtain chunks n where
      c: "py_len chunks = Inr n"
      "snapshot = JObj [(''metadata'', JObj [(''filename'', JStr filename),
                                             (''backup_time'', JStr (now w)),
                                             (''total_chunks'', JNum (of_nat n))]),
                        (''chunks'', chunks)]" by blast
    have "getitem snapshot ''chunks'' = Inr chunks"
      and "try_bind (getitem snapshot ''metadata'') (\<lambda>m. getitem m ''total_chunks'')
             = Inr (JNum (of_nat n))"
      by (simp_all add: c(2) try_bind_def)
    moreover have "\<forall>entries. chunks = JArr entries \<longrightarrow> n = length entries"
      using c(1) by auto
    ultimately show ?thesis using c(1) by blast
  qed
qed

theorem backup_total_chunks_witness:
  "(Write ''weaviate_backups/backup_a.pdf_20240101_120000.json''
      (JObj [(''metadata'', JObj [(''filename'', JStr ''a.pdf''),
                                  (''backup_time'', JStr ''20240101_120000''),
                                  (''total_chunks'', JNum 2)]),
             (''chunks'', JArr [JObj [(''content'', JStr ''hello'')], JObj [(''content'', JStr ''world'')]])]),
    None)
     \<in> set (new_calls
         (quiet_world\<lparr>get_documents := \<lambda>name. Inr (JObj [(''data'', JObj [(''Get'', JObj [(''Document'',
             JArr [JObj [(''content'', JStr ''hello'')], JObj [(''content'', JStr ''world'')]])])])])\<rparr>)
         (snd (create_backup ''a.pdf''
           (quiet_world\<lparr>get_documents := \<lambda>name. Inr (JObj [(''data'', JObj [(''Get'', JObj [(''Document'',
             JArr [JObj [(''content'', JStr ''hello'')], JObj [(''content'', JStr ''world'')]])])])])\<rparr>))))
   \<and> py_len (JArr [JObj [(''content'', JStr ''hello'')], JObj [(''content'', JStr ''world'')]]) = Inr 2"
proof -
  let ?w = "quiet_world\<lparr>get_documents := \<lambda>name. Inr (JObj [(''data'', JObj [(''Get'', JObj [(''Document'',
             JArr [JObj [(''content'', JStr ''hello'')], JObj [(''content'', JStr ''world'')]])])])])\<rparr>"
  let ?snap = "JObj [(''metadata'', JObj [(''filename'', JStr ''a.pdf''),
                                  (''backup_time'', JStr ''20240101_120000''),
                                  (''total_chunks'', JNum 2)]),
             (''chunks'', JArr [JObj [(''content'', JStr ''hello'')], JObj [(''content'', JStr ''world'')]])]"
  have m: "(Write ''weaviate_backups/backup_a.pdf_20240101_120000.json'' ?snap, None)
     \<in> set (new_calls ?w (snd (create_backup ''a.pdf'' ?w)))"
    by (simp add: run_simps new_calls_def)
  from backup_total_chunks[OF m] m show ?thesis by (simp add: try_bind_def)
qed

text \<open>
  C6 fails on the code: when the backend's answer lacks \<open>data.Get.Document\<close> (here a GraphQL
  error response), \<open>_create_backup\<close> reaches the end of the \<open>try\<close> block without a
  \<open>return\<close>: it writes nothing, logs nothing and returns \<open>None\<close>, not \<open>False\<close>.
\<close>

theorem create_backup_returns_None:
  "create_backup ''a.pdf''
     (quiet_world\<lparr>get_documents := \<lambda>name. Inr (JObj [(''errors'',
        JArr [JObj [(''message'', JStr ''Cannot query field Document on type GetObjectsObj'')]])])\<rparr>)
   = (Inr None,
      quiet_world\<lparr>get_documents := \<lambda>name. Inr (JObj [(''errors'',
        JArr [JObj [(''message'', JStr ''Cannot query field Document on type GetObjectsObj'')]])]),
        trace := [(Query ''a.pdf'', None)]\<rparr>)"
  by (simp add: run_simps)

section \<open>A failing batch insert\<close>






lemma committed_append:
  "trace w' = trace w @ evs \<Longrightarrow> committed w' = committed w @ concat (map accepted evs)"
  by (simp add: committed_def)










section \<open>Page numbers of the records\<close>

text \<open>The invariant on the records: a property of every record built from a chunk of a
  non-blank page holds for all records sent to the backend.\<close>

lemma add_chunks_records:
  assumes "add_chunks bs name k cs batch w = (r, batch', w')"
    and "\<forall>s\<in>set batch. Q s" and "\<forall>(n, c)\<in>set cs. Q (properties name k n c)"
  shows "(\<forall>s\<in>set batch'. Q s) \<and>
     (\<exists>evs. trace w' = trace w @ evs \<and> (\<forall>b out. (Insert b, out) \<in> set evs \<longrightarrow> (\<forall>s\<in>set b. Q s)))"
  using assms
proof (induction cs arbitrary: batch w)
  case Nil
  then show ?case by simp
next
  case (Cons c cs)
  obtain n chunk where c: "c = (n, chunk)" by (cases c)
  have Qb: "\<forall>s\<in>set (batch @ [properties name k n chunk]). Q s"
    using Cons.prems(2,3) c by simp
  have Qcs: "\<forall>(n, c)\<in>set cs. Q (properties name k n c)"
    using Cons.prems(3) by simp
  show ?case
  proof (cases rule: add_chunks_step[of chunk bs name k n cs batch w])
    case skip
    with Cons c show ?thesis by simp
  next
    case keep
    with Cons.prems c have "add_chunks bs name k cs (batch @ [properties name k n chunk]) w = (r, batch', w')"
      by simp
    from Cons.IH[OF this Qb Qcs] show ?thesis .
  next
    case (flush w1)
    with Cons.prems c have "add_chunks bs name k cs [] w1 = (r, batch', w')" by simp
    from Cons.IH[OF this _ Qcs] obtain evs where
      e: "\<forall>s\<in>set batch'. Q s" "trace w' = trace w1 @ evs"
        "\<forall>b out. (Insert b, out) \<in> set evs \<longrightarrow> (\<forall>s\<in>set b. Q s)" by auto
    from process_batch_trace[OF flush(3)] e(2)
    have "trace w' = trace w @ (Insert (batch @ [properties name k n chunk]), None) # evs" by simp
    moreover have "\<forall>b out. (Insert b, out) \<in> set ((Insert (batch @ [properties name k n chunk]), None) # evs)
        \<longrightarrow> (\<forall>s\<in>set b. Q s)"
      using e(3) Qb by auto
    ultimately show ?thesis using e(1) by blast
  next
    case (fail e w1)
    with Cons.prems c have r: "batch' = batch @ [properties name k n chunk]" "w' = w1" by simp_all
    from process_batch_trace[OF fail(3)] r
    have "trace w' = trace w @ [(Insert (batch @ [properties name k n chunk]), Some e)]" by simp
    moreover have "\<forall>b out. (Insert b, out) \<in> set [(Insert (batch @ [properties name k n chunk]), Some e)]
        \<longrightarrow> (\<forall>s\<in>set b. Q s)"
      using Qb by auto
    ultimately show ?thesis using Qb r by blast
  qed
qed

lemma process_page_records:
  assumes "process_page bs name k page batch w = (r, batch', w')"
    and "\<forall>s\<in>set batch. Q s"
    and "\<And>t n. page = Inr t \<Longrightarrow> strip t \<noteq> [] \<Longrightarrow> n < length (chunk_text t 5000) \<Longrightarrow>
           Q (properties name k n (chunk_text t 5000 ! n))"
  shows "(\<forall>s\<in>set batch'. Q s) \<and>
     (\<exists>evs. trace w' = trace w @ evs \<and> (\<forall>b out. (Insert b, out) \<in> set evs \<longrightarrow> (\<forall>s\<in>set b. Q s)))"
  using assms(1)
proof (cases rule: process_page_cases)
  case (raised e)
  with assms(2) show ?thesis by simp
next
  case (blank t)
  with assms(2) show ?thesis by simp
next
  case (chunked t)
  from assms(3)[OF chunked(1,2)]
  have "\<forall>(n, c)\<in>set (enumerate 0 (chunk_text t 5000)). Q (properties name k n c)"
    by (auto simp: in_set_enumerate_eq)
  from add_chunks_records[OF chunked(4) assms(2) this] obtain evs where
    "\<forall>s\<in>set batch'. Q s" "trace w' = trace w @ (Extract name k, None) # evs"
    "\<forall>b out. (Insert b, out) \<in> set evs \<longrightarrow> (\<forall>s\<in>set b. Q s)" by auto
  then show ?thesis by (intro conjI exI[of _ "(Extract name k, None) # evs"]) auto
next
  case (failed t e)
  from assms(3)[OF failed(1,2)]
  have "\<forall>(n, c)\<in>set (enumerate 0 (chunk_text t 5000)). Q (properties name k n c)"
    by (auto simp: in_set_enumerate_eq)
  from add_chunks_records[OF failed(4) assms(2) this] obtain evs where
    "\<forall>s\<in>set batch'. Q s" "trace w' = trace w @ (Extract name k, None) # evs"
    "\<forall>b out. (Insert b, out) \<in> set evs \<longrightarrow> (\<forall>s\<in>set b. Q s)" by auto
  then show ?thesis by (intro conjI exI[of _ "(Extract name k, None) # evs"]) auto
qed

lemma pages_loop_records:
  assumes "pages_loop bs name k pages batch w = (r, batch', w')"
    and "\<forall>s\<in>set batch. Q s"
    and "\<forall>i<length pages. \<forall>t. pages ! i = Inr t \<longrightarrow> strip t \<noteq> [] \<longrightarrow>
           (\<forall>n<length (chunk_text t 5000). Q (properties name (k + i) n (chunk_text t 5000 ! n)))"
  shows "(\<forall>s\<in>set batch'. Q s) \<and>
     (\<exists>evs. trace w' = trace w @ evs \<and> (\<forall>b out. (Insert b, out) \<in> set evs \<longrightarrow> (\<forall>s\<in>set b. Q s)))"
  using assms
proof (induction pages arbitrary: k batch w)
  case Nil
  then show ?case by simp
next
  case (Cons page pages)
  obtain r1 b1 w1 where pp: "process_page bs name k page batch w = (r1, b1, w1)"
    by (metis prod_cases3)
  have Qk: "Q (properties name k n (chunk_text t 5000 ! n))"
    if "page = Inr t" "strip t \<noteq> []" "n < length (chunk_text t 5000)" for t n
    using Cons.prems(3) that by fastforce
  have "(\<forall>s\<in>set b1. Q s) \<and>
     (\<exists>evs. trace w1 = trace w @ evs \<and> (\<forall>b out. (Insert b, out) \<in> set evs \<longrightarrow> (\<forall>s\<in>set b. Q s)))"
    by (rule process_page_records[OF pp Cons.prems(2)]) (rule Qk)
  then obtain evs1 where
    e1: "\<forall>s\<in>set b1. Q s" "trace w1 = trace w @ evs1"
      "\<forall>b out. (Insert b, out) \<in> set evs1 \<longrightarrow> (\<forall>s\<in>set b. Q s)" by blast
  show ?case
  proof (cases r1)
    case (Some e)
    with pp Cons.prems(1) have "batch' = b1" "w' = w1" by simp_all
    with e1 show ?thesis by blast
  next
    case None
    with pp Cons.prems(1) have pl: "pages_loop bs name (Suc k) pages b1 w1 = (r, batch', w')" by simp
    have "\<forall>i<length pages. \<forall>t. pages ! i = Inr t \<longrightarrow> strip t \<noteq> [] \<longrightarrow>
           (\<forall>n<length (chunk_text t 5000). Q (properties name (Suc k + i) n (chunk_text t 5000 ! n)))"
    proof (intro allI impI)
      fix i t n assume i: "i < length pages" "pages ! i = Inr t" "strip t \<noteq> []"
        and n: "n < length (chunk_text t 5000)"
      from i have "Suc i < length (page # pages)" "(page # pages) ! Suc i = Inr t" by simp_all
      with Cons.prems(3) i(3) n
      have "Q (properties name (k + Suc i) n (chunk_text t 5000 ! n))" by blast
      then show "Q (properties name (Suc k + i) n (chunk_text t 5000 ! n))" by simp
    qed
    from Cons.IH[OF pl e1(1) this] obtain evs2 where
      e2: "\<forall>s\<in>set batch'. Q s" "trace w' = trace w1 @ evs2"
        "\<forall>b out. (Insert b, out) \<in> set evs2 \<longrightarrow> (\<forall>s\<in>set b. Q s)" by blast
    have "trace w' = trace w @ evs1 @ evs2" using e1 e2 by simp
    moreover have "\<forall>b out. (Insert b, out) \<in> set (evs1 @ evs2) \<longrightarrow> (\<forall>s\<in>set b. Q s)"
      using e1(3) e2(3) by auto
    ultimately show ?thesis using e2(1) by blast
  qed
qed

lemma create_backup_no_insert:
  assumes "create_backup filename w = (r, w')"
  shows "\<exists>evs. trace w' = trace w @ evs \<and> (\<forall>b out. (Insert b, out) \<notin> set evs)"
  using assms by (cases rule: create_backup_cases) auto

lemma process_pdf_records:
  assumes "process_pdf bs f w = (r, w')" and "pdf_pages f = Inr pages"
    and "\<forall>i<length pages. \<forall>t. pages ! i = Inr t \<longrightarrow> strip t \<noteq> [] \<longrightarrow>
           (\<forall>n<length (chunk_text t 5000). Q (properties (pdf_name f) i n (chunk_text t 5000 ! n)))"
    and "(Insert b, out) \<in> set (new_calls w w')" and "s \<in> set b"
  shows "Q s"
proof -
  have loop: "\<exists>evs. trace w2 = trace w @ evs \<and> (\<forall>b out. (Insert b, out) \<in> set evs \<longrightarrow> (\<forall>s\<in>set b. Q s))"
      "\<forall>s\<in>set batch. Q s"
    if "pages_loop bs (pdf_name f) 0 pages [] (log_call (Open (pdf_name f)) None w) = (r1, batch, w2)"
    for r1 batch w2
  proof -
    have "(\<forall>s\<in>set batch. Q s) \<and>
      (\<exists>evs. trace w2 = trace (log_call (Open (pdf_name f)) None w) @ evs \<and>
         (\<forall>b out. (Insert b, out) \<in> set evs \<longrightarrow> (\<forall>s\<in>set b. Q s)))"
    proof (rule pages_loop_records[OF that])
      show "\<forall>s\<in>set []. Q s" by simp
      show "\<forall>i<length pages. \<forall>t. pages ! i = Inr t \<longrightarrow> strip t \<noteq> [] \<longrightarrow>
           (\<forall>n<length (chunk_text t 5000).
              Q (properties (pdf_name f) (0 + i) n (chunk_text t 5000 ! n)))"
        using assms(3) by simp
    qed
    then obtain evs where
      e: "\<forall>s\<in>set batch. Q s" "trace w2 = trace w @ (Open (pdf_name f), None) # evs"
        "\<forall>b out. (Insert b, out) \<in> set evs \<longrightarrow> (\<forall>s\<in>set b. Q s)" by auto
    from e(1) show "\<forall>s\<in>set batch. Q s" .
    from e(2,3) show "\<exists>evs. trace w2 = trace w @ evs \<and> (\<forall>b out. (Insert b, out) \<in> set evs \<longrightarrow> (\<forall>s\<in>set b. Q s))"
      by (intro exI[of _ "(Open (pdf_name f), None) # evs"]) auto
  qed
  have "\<exists>evs. trace w' = trace w @ evs \<and> (\<forall>b out. (Insert b, out) \<in> set evs \<longrightarrow> (\<forall>s\<in>set b. Q s))"
    using assms(1)
  proof (cases rule: process_pdf_cases)
    case (unreadable e)
    with assms(2) show ?thesis by simp
  next
    case (page_raised pages' e batch)
    with assms(2) loop(1)[of "Some e" batch w'] show ?thesis by simp
  next
    case (flush_raised pages' batch w2 e)
    with assms(2) loop[of None batch w2] obtain evs where
      e: "trace w2 = trace w @ evs" "\<forall>b out. (Insert b, out) \<in> set evs \<longrightarrow> (\<forall>s\<in>set b. Q s)"
        "\<forall>s\<in>set batch. Q s" by auto
    from process_batch_trace[OF flush_raised(5)] e(1)
    have "trace w' = trace w @ evs @ [(Insert batch, Some e)]" by simp
    moreover have "\<forall>b out. (Insert b, out) \<in> set (evs @ [(Insert batch, Some e)]) \<longrightarrow> (\<forall>s\<in>set b. Q s)"
      using e(2,3) by auto
    ultimately show ?thesis by blast
  next
    case (backed_up pages' batch w2 w3 b')
    with assms(2) loop[of None batch w2] obtain evs where
      e: "trace w2 = trace w @ evs" "\<forall>b out. (Insert b, out) \<in> set evs \<longrightarrow> (\<forall>s\<in>set b. Q s)"
        "\<forall>s\<in>set batch. Q s" by auto
    have "\<exists>evs2. trace w3 = trace w2 @ evs2 \<and> (\<forall>b out. (Insert b, out) \<in> set evs2 \<longrightarrow> (\<forall>s\<in>set b. Q s))"
    proof (cases "batch = []")
      case True
      with backed_up(3) show ?thesis by auto
    next
      case False
      with backed_up(3) have "process_batch batch w2 = (None, w3)" by simp
      from process_batch_trace[OF this] e(3) show ?thesis by auto
    qed
    then obtain evs2 where e2: "trace w3 = trace w2 @ evs2"
      "\<forall>b out. (Insert b, out) \<in> set evs2 \<longrightarrow> (\<forall>s\<in>set b. Q s)" by blast
    from create_backup_no_insert[OF backed_up(4)] obtain evs3 where
      e3: "trace w' = trace w3 @ evs3" "\<forall>b out. (Insert b, out) \<notin> set evs3" by blast
    have "trace w' = trace w @ evs @ evs2 @ evs3" using e(1) e2(1) e3(1) by simp
    moreover have "\<forall>b out. (Insert b, out) \<in> set (evs @ evs2 @ evs3) \<longrightarrow> (\<forall>s\<in>set b. Q s)"
      using e(2) e2(2) e3(2) by auto
    ultimately show ?thesis by blast
  qed
  then obtain evs where "trace w' = trace w @ evs"
    "\<forall>b out. (Insert b, out) \<in> set evs \<longrightarrow> (\<forall>s\<in>set b. Q s)" by blast
  with assms(4,5) show ?thesis by auto
qed

text \<open>
  C2, as the code has it: every record that \<open>process_pdf\<close> sends to the backend is a chunk
  of a page of the file whose text is not blank, and carries as \<open>page_number\<close> the position
  (counted from 1) of that very page in the file, as \<open>chunk_number\<close> the position of the chunk
  in the page, and the file's name. A blank page gives no record, and its number is missing
  from the records: the following pages keep their own positions.
\<close>

theorem page_number_is_position:
  assumes "pdf_pages f = Inr pages"
    and "(Insert batch, out) \<in> set (new_calls w (snd (process_pdf bs f w)))"
    and "s \<in> set batch"
  shows "\<exists>i t n. i < length pages \<and> pages ! i = Inr t \<and> strip t \<noteq> [] \<and>
           n < length (chunk_text t 5000) \<and> content s = chunk_text t 5000 ! n \<and>
           page_number s = int i + 1 \<and> chunk_number s = int n + 1 \<and> file_name s = pdf_name f"
proof -
  obtain r w' where pp: "process_pdf bs f w = (r, w')" by (metis surj_pair)
  let ?Q = "\<lambda>s. \<exists>i t n. i < length pages \<and> pages ! i = Inr t \<and> strip t \<noteq> [] \<and>
           n < length (chunk_text t 5000) \<and> content s = chunk_text t 5000 ! n \<and>
           page_number s = int i + 1 \<and> chunk_number s = int n + 1 \<and> file_name s = pdf_name f"
  have "\<forall>i<length pages. \<forall>t. pages ! i = Inr t \<longrightarrow> strip t \<noteq> [] \<longrightarrow>
           (\<forall>n<length (chunk_text t 5000). ?Q (properties (pdf_name f) i n (chunk_text t 5000 ! n)))"
    by (auto simp: properties_def)
  from process_pdf_records[OF pp assms(1) this, of batch out s] assms(2,3) pp
  show ?thesis by simp
qed

theorem page_number_is_position_witness:
  "(Insert [\<lparr>content = ''hello'', page_number = 2, file_name = ''a.pdf'', chunk_number = 1\<rparr>], None)
     \<in> set (new_calls quiet_world (snd (process_pdf 50
          \<lparr>pdf_name = ''a.pdf'', pdf_pages = Inr [Inr ''   '', Inr ''hello'']\<rparr> quiet_world)))
   \<and> (\<exists>i t n. i < length [Inr ''   '', Inr ''hello'' :: exn + string] \<and>
          [Inr ''   '', Inr ''hello''] ! i = (Inr t :: exn + string) \<and> strip t \<noteq> [] \<and>
          n < length (chunk_text t 5000) \<and> ''hello'' = chunk_text t 5000 ! n \<and>
          (2 :: int) = int i + 1 \<and> (1 :: int) = int n + 1)"
proof -
  let ?f = "\<lparr>pdf_name = ''a.pdf'', pdf_pages = Inr [Inr ''   '', Inr ''hello'']\<rparr>"
  let ?s = "\<lparr>content = ''hello'', page_number = 2, file_name = ''a.pdf'', chunk_number = 1\<rparr>"
  have p: "pdf_pages ?f = Inr [Inr ''   '', Inr ''hello'']" by simp
  have m: "(Insert [?s], None) \<in> set (new_calls quiet_world (snd (process_pdf 50 ?f quiet_world)))"
    by (simp add: run_simps new_calls_def)
  have s: "?s \<in> set [?s]" by simp
  from page_number_is_position[OF p m s] m show ?thesis by simp
qed

text \<open>
  The claim as the specification states it fails: when the first page of a file is blank and
  the second is not, the only record has \<open>page_number\<close> 2.
\<close>

theorem page_number_gap:
  "map page_number (concat (committed (snd (process_pdf 50
      \<lparr>pdf_name = ''a.pdf'', pdf_pages = Inr [Inr ''   '', Inr ''hello'']\<rparr> quiet_world)))) = [2]"
  by (simp add: run_simps committed_def)

section \<open>Batches sent to the backend\<close>

lemma flushes_simps [simp]:
  "flushes [] = []"
  "flushes (ev # evs) = flushed ev @ flushes evs"
  "flushes (evs @ evs') = flushes evs @ flushes evs'"
  by (simp_all add: flushes_def)

lemma clean_run_refl: "set (inserts w) \<subseteq> {None} \<Longrightarrow> int (length batch) < bs \<Longrightarrow>
    clean_run bs batch batch w w [] []"
  by (simp add: clean_run_def)

lemma clean_run_trans:
  assumes "clean_run bs b0 b1 w0 w1 bl1 rs1" "clean_run bs b1 b2 w1 w2 bl2 rs2"
  shows "clean_run bs b0 b2 w0 w2 (bl1 @ bl2) (rs1 @ rs2)"
proof -
  from assms(1) obtain evs1 where e1: "trace w1 = trace w0 @ evs1" "flushes evs1 = bl1"
    "concat (map accepted evs1) = bl1" "\<forall>b\<in>set bl1. int (length b) = bs"
    "concat bl1 @ b1 = b0 @ rs1"
    unfolding clean_run_def by blast
  from assms(2) obtain evs2 where e2: "trace w2 = trace w1 @ evs2" "flushes evs2 = bl2"
    "concat (map accepted evs2) = bl2" "\<forall>b\<in>set bl2. int (length b) = bs"
    "concat bl2 @ b2 = b1 @ rs2" "set (inserts w2) \<subseteq> {None}" "int (length b2) < bs"
    unfolding clean_run_def by blast
  have "trace w2 = trace w0 @ (evs1 @ evs2)" using e1(1) e2(1) by simp
  moreover have "flushes (evs1 @ evs2) = bl1 @ bl2" using e1(2) e2(2) by simp
  moreover have "concat (map accepted (evs1 @ evs2)) = bl1 @ bl2" using e1(3) e2(3) by simp
  moreover have "\<forall>b\<in>set (bl1 @ bl2). int (length b) = bs" using e1(4) e2(4) by auto
  moreover have "concat (bl1 @ bl2) @ b2 = b0 @ rs1 @ rs2"
  proof -
    have "concat (bl1 @ bl2) @ b2 = concat bl1 @ (concat bl2 @ b2)" by simp
    also have "\<dots> = concat bl1 @ b1 @ rs2" using e2(5) by simp
    also have "\<dots> = (concat bl1 @ b1) @ rs2" by simp
    also have "\<dots> = b0 @ rs1 @ rs2" using e1(5) by simp
    finally show ?thesis .
  qed
  ultimately show ?thesis using e2(6,7) unfolding clean_run_def by blast
qed

lemma process_batch_clean:
  assumes "set (inserts w) \<subseteq> {None}"
  shows "\<exists>w'. process_batch batch w = (None, w') \<and> set (inserts w') \<subseteq> {None} \<and>
           trace w' = trace w @ [(Insert batch, None)]"
proof (cases "inserts w")
  case Nil
  then show ?thesis by (simp add: process_batch_def)
next
  case (Cons out rest)
  with assms have "out = None" "set rest \<subseteq> {None}" by auto
  with Cons show ?thesis by (simp add: process_batch_def)
qed

lemma add_chunks_clean:
  assumes "set (inserts w) \<subseteq> {None}" "int (length batch) < bs"
  shows "\<exists>batch' w' bl. add_chunks bs name k cs batch w = (None, batch', w') \<and>
           clean_run bs batch batch' w w' bl (chunk_records name k cs)"
  using assms
proof (induction cs arbitrary: batch w)
  case Nil
  then show ?case using clean_run_refl by fastforce
next
  case (Cons c cs)
  obtain n chunk where c: "c = (n, chunk)" by (cases c)
  show ?case
  proof (cases rule: add_chunks_step[of chunk bs name k n cs batch w])
    case skip
    with Cons.IH[OF Cons.prems] c show ?thesis by simp
  next
    case keep
    then have len: "int (length (batch @ [properties name k n chunk])) < bs" by simp
    from Cons.IH[OF Cons.prems(1) len] obtain batch' w' bl where
      ac: "add_chunks bs name k cs (batch @ [properties name k n chunk]) w = (None, batch', w')"
      and cr: "clean_run bs (batch @ [properties name k n chunk]) batch' w w' bl (chunk_records name k cs)"
      by blast
    from cr have "clean_run bs batch batch' w w' bl (chunk_records name k (c # cs))"
      using keep(1) c by (simp add: clean_run_def)
    with ac keep(3) c show ?thesis by auto
  next
    case (flush w1)
    from process_batch_clean[OF Cons.prems(1), of "batch @ [properties name k n chunk]"] flush(3)
    have w1: "set (inserts w1) \<subseteq> {None}"
      "trace w1 = trace w @ [(Insert (batch @ [properties name k n chunk]), None)]" by auto
    from Cons.prems(2) have pos: "int (length ([]::segment list)) < bs" by simp
    from Cons.IH[OF w1(1) pos] obtain batch' w' bl where
      ac: "add_chunks bs name k cs [] w1 = (None, batch', w')"
      and cr: "clean_run bs [] batch' w1 w' bl (chunk_records name k cs)" by blast
    have full: "int (length (batch @ [properties name k n chunk])) = bs"
      using flush(2) Cons.prems(2) by simp
    have "clean_run bs batch [] w w1 [batch @ [properties name k n chunk]] [properties name k n chunk]"
      unfolding clean_run_def using w1 full pos by simp
    from clean_run_trans[OF this cr]
    have "clean_run bs batch batch' w w' ((batch @ [properties name k n chunk]) # bl)
            (chunk_records name k (c # cs))"
      using flush(1) c by simp
    with ac flush(4) c show ?thesis by auto
  next
    case (fail e w1)
    from process_batch_clean[OF Cons.prems(1), of "batch @ [properties name k n chunk]"] fail(3)
    show ?thesis by auto
  qed
qed

lemma process_page_clean:
  assumes "set (inserts w) \<subseteq> {None}" "int (length batch) < bs" "page \<noteq> Inl KeyboardInterrupt"
  shows "\<exists>batch' w' bl. process_page bs name k page batch w = (None, batch', w') \<and>
           clean_run bs batch batch' w w' bl (page_records name k page)"
proof -
  obtain r batch' w' where pp: "process_page bs name k page batch w = (r, batch', w')"
    by (metis prod_cases3)
  have ext: "clean_run bs batch batch w (log_call (Extract name k) out w) [] []" for out
    using assms(1,2) by (simp add: clean_run_def)
  from pp show ?thesis
  proof (cases rule: process_page_cases)
    case (raised e)
    with assms(3) have "r = None" by (cases e) (simp_all add: except_Exception_def)
    with raised pp ext[of "Some e"] show ?thesis by (auto simp: page_records_def)
  next
    case (blank t)
    with pp ext[of None] show ?thesis by (auto simp: page_records_def)
  next
    case (chunked t)
    have "set (inserts (log_call (Extract name k) None w)) \<subseteq> {None}" using assms(1) by simp
    from add_chunks_clean[OF this assms(2), of name k "enumerate 0 (chunk_text t 5000)"] chunked(4)
    obtain bl where "clean_run bs batch batch' (log_call (Extract name k) None w) w' bl
        (chunk_records name k (enumerate 0 (chunk_text t 5000)))" by auto
    from clean_run_trans[OF ext[of None] this] chunked(1,2)
    have "clean_run bs batch batch' w w' bl (page_records name k page)"
      by (simp add: page_records_def)
    with pp chunked(3) show ?thesis by auto
  next
    case (failed t e)
    have "set (inserts (log_call (Extract name k) None w)) \<subseteq> {None}" using assms(1) by simp
    from add_chunks_clean[OF this assms(2), of name k "enumerate 0 (chunk_text t 5000)"] failed(4)
    show ?thesis by auto
  qed
qed

lemma pages_loop_clean:
  assumes "set (inserts w) \<subseteq> {None}" "int (length batch) < bs" "Inl KeyboardInterrupt \<notin> set pages"
  shows "\<exists>batch' w' bl. pages_loop bs name k pages batch w = (None, batch', w') \<and>
           clean_run bs batch batch' w w' bl (file_records name k pages)"
  using assms
proof (induction pages arbitrary: k batch w)
  case Nil
  then show ?case using clean_run_refl by fastforce
next
  case (Cons page pages)
  from Cons.prems(3) have "page \<noteq> Inl KeyboardInterrupt" by auto
  from process_page_clean[OF Cons.prems(1,2) this, of name k] obtain b1 w1 bl1 where
    pp: "process_page bs name k page batch w = (None, b1, w1)"
    and c1: "clean_run bs batch b1 w w1 bl1 (page_records name k page)" by blast
  from c1 have w1: "set (inserts w1) \<subseteq> {None}" "int (length b1) < bs"
    by (simp_all add: clean_run_def)
  from Cons.prems(3) have "Inl KeyboardInterrupt \<notin> set pages" by simp
  from Cons.IH[OF w1 this, of "Suc k"] obtain batch' w' bl2 where
    pl: "pages_loop bs name (Suc k) pages b1 w1 = (None, batch', w')"
    and c2: "clean_run bs b1 batch' w1 w' bl2 (file_records name (Suc k) pages)" by blast
  from clean_run_trans[OF c1 c2] pp pl show ?case by auto
qed

lemma create_backup_flushes:
  assumes "create_backup filename w = (r, w')"
  shows "\<exists>evs. trace w' = trace w @ evs \<and> flushes evs = [] \<and> concat (map accepted evs) = []"
  using assms by (cases rule: create_backup_cases) auto

lemma process_pdf_clean:
  assumes "pdf_pages f = Inr pages" "Inl KeyboardInterrupt \<notin> set pages"
    "set (inserts w) \<subseteq> {None}" "0 < bs" "process_pdf bs f w = (r, w')"
  shows "\<exists>bl batch. (\<forall>b\<in>set bl. int (length b) = bs) \<and> int (length batch) < bs \<and>
           concat bl @ batch = file_records (pdf_name f) 0 pages \<and>
           flushes (new_calls w w') = bl @ (if batch = [] then [] else [batch]) \<and>
           committed w' = committed w @ bl @ (if batch = [] then [] else [batch])"
proof -
  let ?w1 = "log_call (Open (pdf_name f)) None w"
  have "set (inserts ?w1) \<subseteq> {None}" "int (length ([]::segment list)) < bs"
    using assms(3,4) by simp_all
  from pages_loop_clean[OF this assms(2), of "pdf_name f" 0] obtain batch w2 bl where
    pl: "pages_loop bs (pdf_name f) 0 pages [] ?w1 = (None, batch, w2)"
    and cr: "clean_run bs [] batch ?w1 w2 bl (file_records (pdf_name f) 0 pages)" by blast
  from cr obtain evs where e: "trace w2 = trace w @ (Open (pdf_name f), None) # evs"
    "flushes evs = bl" "concat (map accepted evs) = bl" "\<forall>b\<in>set bl. int (length b) = bs"
    "concat bl @ batch = file_records (pdf_name f) 0 pages" "set (inserts w2) \<subseteq> {None}"
    "int (length batch) < bs"
    unfolding clean_run_def by auto
  from process_batch_clean[OF e(6), of batch] obtain w3' where
    pb: "process_batch batch w2 = (None, w3')" "trace w3' = trace w2 @ [(Insert batch, None)]"
    by blast
  have "\<exists>evs'. trace w' = trace w @ evs' \<and> flushes evs' = bl @ (if batch = [] then [] else [batch])
          \<and> concat (map accepted evs') = bl @ (if batch = [] then [] else [batch])"
    using assms(5)
  proof (cases rule: process_pdf_cases)
    case (unreadable e)
    with assms(1) show ?thesis by simp
  next
    case (page_raised pages' e batch0)
    with assms(1) pl show ?thesis by simp
  next
    case (flush_raised pages' batch0 w20 e)
    with assms(1) pl pb show ?thesis by simp
  next
    case (backed_up pages' batch0 w20 w3 b)
    with assms(1) pl have eq: "batch0 = batch" "w20 = w2" by simp_all
    have "\<exists>evs2. trace w3 = trace w2 @ evs2 \<and> flushes evs2 = (if batch = [] then [] else [batch])
        \<and> concat (map accepted evs2) = (if batch = [] then [] else [batch])"
    proof (cases "batch = []")
      case True
      with backed_up(3) eq show ?thesis by simp
    next
      case False
      with backed_up(3) eq pb have "w3 = w3'" by simp
      with pb(2) False show ?thesis by simp
    qed
    then obtain evs2 where e2: "trace w3 = trace w2 @ evs2"
      "flushes evs2 = (if batch = [] then [] else [batch])"
      "concat (map accepted evs2) = (if batch = [] then [] else [batch])" by blast
    from create_backup_flushes[OF backed_up(4)] obtain evs3 where
      e3: "trace w' = trace w3 @ evs3" "flushes evs3 = []" "concat (map accepted evs3) = []" by blast
    let ?evs = "(Open (pdf_name f), None) # evs @ evs2 @ evs3"
    have "trace w' = trace w @ ?evs" using e(1) e2(1) e3(1) by simp
    moreover have "flushes ?evs = bl @ (if batch = [] then [] else [batch])"
      using e(2) e2(2) e3(2) by simp
    moreover have "concat (map accepted ?evs) = bl @ (if batch = [] then [] else [batch])"
      using e(3) e2(3) e3(3) by simp
    ultimately show ?thesis by blast
  qed
  then obtain evs' where e': "trace w' = trace w @ evs'"
    "flushes evs' = bl @ (if batch = [] then [] else [batch])"
    "concat (map accepted evs') = bl @ (if batch = [] then [] else [batch])" by blast
  from e'(1) have "new_calls w w' = evs'" by simp
  moreover from committed_append[OF e'(1)] e'(3)
  have "committed w' = committed w @ bl @ (if batch = [] then [] else [batch])" by simp
  ultimately show ?thesis using e(4,5,7) e'(2) by auto
qed

text \<open>
  When no insert fails and no page extraction is interrupted, the batches that
  \<open>process_pdf\<close> sends to the backend for a file, with a positive batch size, hold all the
  records of the file in order; every batch but the last holds exactly \<open>batch_size\<close>
  records (it was sent when the pending list reached that size, and the list restarted empty);
  the last one holds between 1 and \<open>batch_size\<close> records (a shorter one is the remainder,
  sent at the end of the file); no empty batch is ever sent; and all of them are committed.
\<close>

lemma batches_without_failure:
  assumes "pdf_pages f = Inr pages" and "Inl KeyboardInterrupt \<notin> set pages"
    and "set (inserts w) \<subseteq> {None}" and "0 < batch_size"
  shows "\<exists>batches. flushes (new_calls w (snd (process_pdf batch_size f w))) = batches \<and>
           concat batches = file_records (pdf_name f) 0 pages \<and>
           (\<forall>b\<in>set (butlast batches). int (length b) = batch_size) \<and>
           (batches \<noteq> [] \<longrightarrow> last batches \<noteq> [] \<and> int (length (last batches)) \<le> batch_size) \<and>
           [] \<notin> set batches \<and>
           committed (snd (process_pdf batch_size f w)) = committed w @ batches"
proof -
  obtain r w' where pp: "process_pdf batch_size f w = (r, w')" by (metis surj_pair)
  from process_pdf_clean[OF assms pp] obtain bl batch where
    c: "\<forall>b\<in>set bl. int (length b) = batch_size" "int (length batch) < batch_size"
      "concat bl @ batch = file_records (pdf_name f) 0 pages"
      "flushes (new_calls w w') = bl @ (if batch = [] then [] else [batch])"
      "committed w' = committed w @ bl @ (if batch = [] then [] else [batch])" by blast
  let ?bs = "bl @ (if batch = [] then [] else [batch])"
  have 1: "concat ?bs = file_records (pdf_name f) 0 pages" using c(3) by auto
  have 2: "\<forall>b\<in>set (butlast ?bs). int (length b) = batch_size"
    using c(1) by (auto dest: in_set_butlastD)
  have ne: "b \<noteq> []" if "b \<in> set bl" for b using c(1) assms(4) that by auto
  have 3: "?bs \<noteq> [] \<longrightarrow> last ?bs \<noteq> [] \<and> int (length (last ?bs)) \<le> batch_size"
  proof (cases "batch = []")
    case True
    show ?thesis
    proof
      assume "?bs \<noteq> []"
      with True have "bl \<noteq> []" by simp
      then have "last bl \<in> set bl" by simp
      with c(1) ne True show "last ?bs \<noteq> [] \<and> int (length (last ?bs)) \<le> batch_size" by auto
    qed
  next
    case False
    with c(2) show ?thesis by simp
  qed
  have 4: "[] \<notin> set ?bs" using ne by auto
  from 1 2 3 4 c(4,5) pp show ?thesis by simp
qed

lemma batches_without_failure_example:
  "flushes (new_calls quiet_world (snd (process_pdf 2
      \<lparr>pdf_name = ''a.pdf'', pdf_pages = Inr [Inr ''alpha'', Inr ''beta'', Inr ''gamma'']\<rparr> quiet_world)))
   = [[\<lparr>content = ''alpha'', page_number = 1, file_name = ''a.pdf'', chunk_number = 1\<rparr>,
       \<lparr>content = ''beta'', page_number = 2, file_name = ''a.pdf'', chunk_number = 1\<rparr>],
      [\<lparr>content = ''gamma'', page_number = 3, file_name = ''a.pdf'', chunk_number = 1\<rparr>]]
   \<and> file_records ''a.pdf'' 0 [Inr ''alpha'', Inr ''beta'', Inr ''gamma'']
   = [\<lparr>content = ''alpha'', page_number = 1, file_name = ''a.pdf'', chunk_number = 1\<rparr>,
      \<lparr>content = ''beta'', page_number = 2, file_name = ''a.pdf'', chunk_number = 1\<rparr>,
      \<lparr>content = ''gamma'', page_number = 3, file_name = ''a.pdf'', chunk_number = 1\<rparr>]
   \<and> committed (snd (process_pdf 2
      \<lparr>pdf_name = ''a.pdf'', pdf_pages = Inr [Inr ''alpha'', Inr ''beta'', Inr ''gamma'']\<rparr> quiet_world))
   = [[\<lparr>content = ''alpha'', page_number = 1, file_name = ''a.pdf'', chunk_number = 1\<rparr>,
       \<lparr>content = ''beta'', page_number = 2, file_name = ''a.pdf'', chunk_number = 1\<rparr>],
      [\<lparr>content = ''gamma'', page_number = 3, file_name = ''a.pdf'', chunk_number = 1\<rparr>]]"
proof -
  let ?f = "\<lparr>pdf_name = ''a.pdf'', pdf_pages = Inr [Inr ''alpha'', Inr ''beta'', Inr ''gamma'']\<rparr>"
  have p: "pdf_pages ?f = Inr [Inr ''alpha'', Inr ''beta'', Inr ''gamma'']" by simp
  have k: "Inl KeyboardInterrupt \<notin> set [Inr ''alpha'', Inr ''beta'', Inr ''gamma'' :: exn + string]"
    by simp
  have i: "set (inserts quiet_world) \<subseteq> {None}" by (simp add: quiet_world_def)
  have fl: "flushes (new_calls quiet_world (snd (process_pdf 2 ?f quiet_world)))
   = [[\<lparr>content = ''alpha'', page_number = 1, file_name = ''a.pdf'', chunk_number = 1\<rparr>,
       \<lparr>content = ''beta'', page_number = 2, file_name = ''a.pdf'', chunk_number = 1\<rparr>],
      [\<lparr>content = ''gamma'', page_number = 3, file_name = ''a.pdf'', chunk_number = 1\<rparr>]]"
    by (simp add: run_simps new_calls_def)
  have c: "committed quiet_world = []" by (simp add: quiet_world_def committed_def)
  from batches_without_failure[OF p k i, of 2] fl c show ?thesis by simp
qed

text \<open>
  C7 fails on the code when an insert fails. With a batch size of 2 the pending list reaches
  two records after the second page and is sent; the insert fails, the error is caught by the
  handler of the page, and the assignment that clears the pending list is skipped. The list
  is therefore sent again after the third page, with three records: a flush at a pending
  count that is not the batch size, of records that were pending at the flush before.
\<close>

theorem failed_flush_keeps_pending:
  "new_calls (quiet_world\<lparr>inserts := [Some (Exception ''ConnectionError'')]\<rparr>)
     (snd (process_pdf 2
        \<lparr>pdf_name = ''a.pdf'', pdf_pages = Inr [Inr ''alpha'', Inr ''beta'', Inr ''gamma'']\<rparr>
        (quiet_world\<lparr>inserts := [Some (Exception ''ConnectionError'')]\<rparr>)))
   = [(Open ''a.pdf'', None),
      (Extract ''a.pdf'' 0, None),
      (Extract ''a.pdf'' 1, None),
      (Insert [\<lparr>content = ''alpha'', page_number = 1, file_name = ''a.pdf'', chunk_number = 1\<rparr>,
               \<lparr>content = ''beta'', page_number = 2, file_name = ''a.pdf'', chunk_number = 1\<rparr>],
       Some (Exception ''ConnectionError'')),
      (Extract ''a.pdf'' 2, None),
      (Insert [\<lparr>content = ''alpha'', page_number = 1, file_name = ''a.pdf'', chunk_number = 1\<rparr>,
               \<lparr>content = ''beta'', page_number = 2, file_name = ''a.pdf'', chunk_number = 1\<rparr>,
               \<lparr>content = ''gamma'', page_number = 3, file_name = ''a.pdf'', chunk_number = 1\<rparr>],
       None),
      (Query ''a.pdf'', None),
      (Write ''weaviate_backups/backup_a.pdf_20240101_120000.json''
         (JObj [(''metadata'', JObj [(''filename'', JStr ''a.pdf''),
                                     (''backup_time'', JStr ''20240101_120000''),
                                     (''total_chunks'', JNum 0)]),
                (''chunks'', JArr [])]), None)]"
  by (simp add: run_simps new_calls_def)

end
